theory Spec2Isabelle
  imports Complex_Main "HOL-Library.Word"
begin

unbundle bit_operations_syntax

section \<open>Values of type double\<close>

text \<open>
  A C++ \<^verbatim>\<open>double\<close> is an IEEE 754 binary64 value: a finite value, one of the two
  infinities, or NaN. The finite values are the reals \<open>m \<cdot> 2\<^sup>e\<close> with \<open>|m| < 2\<^sup>5\<^sup>3\<close> and
  \<open>-1074 \<le> e \<le> 971\<close>. The two signed zeros are identified: they differ as divisors
  only, and the divisors of the code that can be zero are \<^verbatim>\<open>static_cast<double>(num_steps)\<close>
  and \<^verbatim>\<open>num_paths\<close>, conversions of an \<^verbatim>\<open>int\<close>, and the pivots of \<^verbatim>\<open>polyfit\<close>.

  \<open>round_real\<close> rounds a real to the nearest point of the binary64 grid at its magnitude,
  a tie going to the even significand; \<open>quantum_exp\<close> is the exponent of the spacing of
  that grid, which is \<open>-1074\<close> in the subnormal range. A real is a double when rounding
  leaves it unchanged and its magnitude is below \<open>2\<^sup>1\<^sup>0\<^sup>2\<^sup>4\<close>.
\<close>

definition pow2 :: "int \<Rightarrow> real" where
  "pow2 e = (if 0 \<le> e then 2 ^ nat e else 1 / 2 ^ nat (- e))"

definition round_half_even :: "real \<Rightarrow> int" where
  "round_half_even y =
     (let f = \<lfloor>y\<rfloor>
      in if y - of_int f < 1 / 2 then f
         else if 1 / 2 < y - of_int f then f + 1
         else if even f then f else f + 1)"

definition quantum_exp :: "real \<Rightarrow> int" where
  "quantum_exp x = max (\<lfloor>log 2 \<bar>x\<bar>\<rfloor> - 52) (- 1074)"

definition round_real :: "real \<Rightarrow> real" where
  "round_real x = of_int (round_half_even (x / pow2 (quantum_exp x))) * pow2 (quantum_exp x)"

definition is_double :: "real \<Rightarrow> bool" where
  "is_double x \<longleftrightarrow> \<bar>x\<bar> < pow2 1024 \<and> round_real x = x"

typedef double = "{x. is_double x}"
proof
  show "0 \<in> {x. is_double x}"
    by (simp add: is_double_def round_real_def round_half_even_def pow2_def)
qed

datatype dbl = Fin double | PInf | MInf | NaN

text \<open>
  \<open>fl x\<close> is the value that a correctly rounded operation with the exact result \<open>x\<close>
  returns: the rounded result, or an infinity when the rounded result reaches \<open>2\<^sup>1\<^sup>0\<^sup>2\<^sup>4\<close>
  in magnitude. A result that rounds to zero is zero. The operations follow IEEE 754 on
  the special values: a NaN operand gives NaN, \<open>\<infinity> - \<infinity>\<close>, \<open>0 \<cdot> \<infinity>\<close>, \<open>0 / 0\<close> and
  \<open>\<infinity> / \<infinity>\<close> are NaN, a nonzero finite value divided by zero is an infinity, and every
  comparison with NaN is false.
\<close>

definition fl :: "real \<Rightarrow> dbl" where
  "fl x = (let y = round_real x
           in if pow2 1024 \<le> y then PInf
              else if y \<le> - pow2 1024 then MInf
              else Fin (Abs_double y))"

instantiation dbl :: "{zero, plus, uminus, times, inverse, abs, ord}"
begin

definition zero_dbl :: dbl where
  "zero_dbl = fl 0"

fun plus_dbl :: "dbl \<Rightarrow> dbl \<Rightarrow> dbl" where
  "plus_dbl NaN b = NaN"
| "plus_dbl a NaN = NaN"
| "plus_dbl (Fin x) (Fin y) = fl (Rep_double x + Rep_double y)"
| "plus_dbl (Fin x) PInf = PInf"
| "plus_dbl (Fin x) MInf = MInf"
| "plus_dbl PInf MInf = NaN"
| "plus_dbl MInf PInf = NaN"
| "plus_dbl PInf b = PInf"
| "plus_dbl MInf b = MInf"

fun uminus_dbl :: "dbl \<Rightarrow> dbl" where
  "uminus_dbl (Fin x) = fl (- Rep_double x)"
| "uminus_dbl PInf = MInf"
| "uminus_dbl MInf = PInf"
| "uminus_dbl NaN = NaN"

fun times_dbl :: "dbl \<Rightarrow> dbl \<Rightarrow> dbl" where
  "times_dbl NaN b = NaN"
| "times_dbl a NaN = NaN"
| "times_dbl (Fin x) (Fin y) = fl (Rep_double x * Rep_double y)"
| "times_dbl (Fin x) PInf =
     (if Rep_double x = 0 then NaN else if 0 < Rep_double x then PInf else MInf)"
| "times_dbl (Fin x) MInf =
     (if Rep_double x = 0 then NaN else if 0 < Rep_double x then MInf else PInf)"
| "times_dbl PInf (Fin y) =
     (if Rep_double y = 0 then NaN else if 0 < Rep_double y then PInf else MInf)"
| "times_dbl MInf (Fin y) =
     (if Rep_double y = 0 then NaN else if 0 < Rep_double y then MInf else PInf)"
| "times_dbl PInf PInf = PInf"
| "times_dbl PInf MInf = MInf"
| "times_dbl MInf PInf = MInf"
| "times_dbl MInf MInf = PInf"

fun divide_dbl :: "dbl \<Rightarrow> dbl \<Rightarrow> dbl" where
  "divide_dbl NaN b = NaN"
| "divide_dbl a NaN = NaN"
| "divide_dbl (Fin x) (Fin y) =
     (if Rep_double y = 0
      then (if Rep_double x = 0 then NaN else if 0 < Rep_double x then PInf else MInf)
      else fl (Rep_double x / Rep_double y))"
| "divide_dbl (Fin x) PInf = fl 0"
| "divide_dbl (Fin x) MInf = fl 0"
| "divide_dbl PInf (Fin y) = (if 0 \<le> Rep_double y then PInf else MInf)"
| "divide_dbl MInf (Fin y) = (if 0 \<le> Rep_double y then MInf else PInf)"
| "divide_dbl PInf b = NaN"
| "divide_dbl MInf b = NaN"

fun inverse_dbl :: "dbl \<Rightarrow> dbl" where
  "inverse_dbl (Fin x) = (if Rep_double x = 0 then PInf else fl (1 / Rep_double x))"
| "inverse_dbl PInf = fl 0"
| "inverse_dbl MInf = fl 0"
| "inverse_dbl NaN = NaN"

fun abs_dbl :: "dbl \<Rightarrow> dbl" where
  "abs_dbl (Fin x) = fl \<bar>Rep_double x\<bar>"
| "abs_dbl PInf = PInf"
| "abs_dbl MInf = PInf"
| "abs_dbl NaN = NaN"

fun less_dbl :: "dbl \<Rightarrow> dbl \<Rightarrow> bool" where
  "less_dbl NaN b = False"
| "less_dbl a NaN = False"
| "less_dbl (Fin x) (Fin y) = (Rep_double x < Rep_double y)"
| "less_dbl (Fin x) PInf = True"
| "less_dbl (Fin x) MInf = False"
| "less_dbl PInf b = False"
| "less_dbl MInf MInf = False"
| "less_dbl MInf b = True"

fun less_eq_dbl :: "dbl \<Rightarrow> dbl \<Rightarrow> bool" where
  "less_eq_dbl NaN b = False"
| "less_eq_dbl a NaN = False"
| "less_eq_dbl (Fin x) (Fin y) = (Rep_double x \<le> Rep_double y)"
| "less_eq_dbl (Fin x) PInf = True"
| "less_eq_dbl (Fin x) MInf = False"
| "less_eq_dbl PInf PInf = True"
| "less_eq_dbl PInf b = False"
| "less_eq_dbl MInf b = True"

instance ..

end

instantiation dbl :: minus
begin

definition minus_dbl :: "dbl \<Rightarrow> dbl \<Rightarrow> dbl" where
  "minus_dbl a b = a + (- b)"

instance ..

end

text \<open>\<^verbatim>\<open>std::exp\<close> and \<^verbatim>\<open>std::sqrt\<close>, taken as correctly rounded.\<close>

fun exp_dbl :: "dbl \<Rightarrow> dbl" where
  "exp_dbl (Fin x) = fl (exp (Rep_double x))"
| "exp_dbl PInf = PInf"
| "exp_dbl MInf = fl 0"
| "exp_dbl NaN = NaN"

fun sqrt_dbl :: "dbl \<Rightarrow> dbl" where
  "sqrt_dbl (Fin x) = (if Rep_double x < 0 then NaN else fl (sqrt (Rep_double x)))"
| "sqrt_dbl PInf = PInf"
| "sqrt_dbl MInf = NaN"
| "sqrt_dbl NaN = NaN"

text \<open>
  \<^verbatim>\<open>std::max(a, b)\<close> is \<^verbatim>\<open>(a < b) ? b : a\<close>: when the comparison is false, also because
  \<open>b\<close> is NaN, the first argument is returned.
\<close>

definition std_max :: "dbl \<Rightarrow> dbl \<Rightarrow> dbl" where
  "std_max a b = (if a < b then b else a)"

text \<open>The conversion of an \<^verbatim>\<open>int\<close> to \<^verbatim>\<open>double\<close>.\<close>

definition double_of_int :: "int \<Rightarrow> dbl" where
  "double_of_int n = fl (of_int n)"

section \<open>Errors\<close>

text \<open>
  \<open>AllocationExhausted\<close> is the \<^verbatim>\<open>std::bad_alloc\<close> thrown by \<^verbatim>\<open>Arena::allocate\<close>,
  \<open>ConfigurationError\<close> the \<^verbatim>\<open>std::runtime_error\<close> of the lane-width check,
  \<open>LengthError\<close> the \<^verbatim>\<open>std::length_error\<close> of a \<^verbatim>\<open>std::vector\<close> constructed with a
  negative element count, and \<open>OutOfRange\<close> marks an execution that indexes a vector
  outside its bounds, where the source has no defined behaviour. The general heap is
  unbounded: a \<^verbatim>\<open>std::bad_alloc\<close> of \<^verbatim>\<open>std::allocator\<close> is not modelled.
\<close>

datatype error = AllocationExhausted | ConfigurationError | LengthError | OutOfRange

section \<open>Arena allocator (arena_allocator.h)\<close>

text \<open>
  \<^verbatim>\<open>size_t\<close> is taken as 64 bits wide. The arena is the size of its \<^verbatim>\<open>memory\<close> vector and
  the cursor \<^verbatim>\<open>offset\<close>; a region is identified by its start offset in \<^verbatim>\<open>memory\<close>.
  \<^verbatim>\<open>allocate\<close> returns the arena with the result: when it throws, the arena is the one
  it was given.
\<close>

record arena =
  memory_size :: "64 word"
  offset :: "64 word"

definition allocate :: "arena \<Rightarrow> 64 word \<Rightarrow> 64 word \<Rightarrow> (error + 64 word) \<times> arena" where
  "allocate a sz alignment =
     (let aligned_offset = (offset a + alignment - 1) AND NOT (alignment - 1)
      in if aligned_offset + sz > memory_size a then (Inl AllocationExhausted, a)
         else (Inr aligned_offset, a\<lparr>offset := aligned_offset + sz\<rparr>))"

definition reset :: "arena \<Rightarrow> arena" where
  "reset a = a\<lparr>offset := 0\<rparr>"

text \<open>
  The specification's wording of the alignment step, on unbounded naturals: the current
  offset rounded up to the next multiple of the alignment.
\<close>

definition round_up_to :: "nat \<Rightarrow> nat \<Rightarrow> nat" where
  "round_up_to off al = ((off + al - 1) div al) * al"

section \<open>Standard-library parts\<close>

text \<open>
  \<^verbatim>\<open>int\<close> is 32 bits wide: \<open>int_value\<close> holds of the integers that an \<^verbatim>\<open>int\<close> argument can
  be. \<^verbatim>\<open>int\<close> expressions are written on unbounded integers, and \<open>int32\<close> is the
  two's-complement wrap-around of a result, written out at the two expressions that can
  leave the range of \<^verbatim>\<open>int\<close> before anything else fails: \<^verbatim>\<open>num_steps + 1\<close> and
  \<^verbatim>\<open>num_paths * (num_steps + 1)\<close>. (C++ leaves signed overflow undefined; the wrap-around
  is what the compiled code computes.)
\<close>

definition int_value :: "int \<Rightarrow> bool" where
  "int_value n \<longleftrightarrow> - (2 ^ 31) \<le> n \<and> n < 2 ^ 31"

definition int32 :: "int \<Rightarrow> int" where
  "int32 n = (n + 2 ^ 31) mod 2 ^ 32 - 2 ^ 31"

text \<open>
  The conversion of an \<^verbatim>\<open>int\<close> to \<^verbatim>\<open>size_t\<close>, as in \<^verbatim>\<open>num_paths % batch_size\<close> and in
  the element count of a \<^verbatim>\<open>std::vector\<close>.
\<close>

definition size_t_of_int :: "int \<Rightarrow> nat" where
  "size_t_of_int n = nat (n mod 2 ^ 64)"

text \<open>
  \<^verbatim>\<open>ArenaAllocator<T>::allocate(n)\<close> with \<open>szT\<close> for \<^verbatim>\<open>sizeof(T)\<close> and \<^verbatim>\<open>alignof(T)\<close>
  (8 for \<^verbatim>\<open>double\<close>, 4 for \<^verbatim>\<open>int\<close>).
\<close>

definition ArenaAllocator_allocate :: "nat \<Rightarrow> arena \<Rightarrow> 64 word \<Rightarrow> (error + 64 word) \<times> arena" where
  "ArenaAllocator_allocate szT a n = allocate a (n * word_of_nat szT) (word_of_nat szT)"

text \<open>
  The construction \<^verbatim>\<open>std::vector<T, ArenaAllocator<T>>(n, alloc)\<close> with an \<^verbatim>\<open>int\<close> count:
  a negative count converts to a \<^verbatim>\<open>size_t\<close> beyond \<^verbatim>\<open>max_size()\<close> and throws
  \<^verbatim>\<open>std::length_error\<close>, a zero count allocates nothing, and a positive count asks the
  allocator once.
\<close>

definition vector_construct :: "nat \<Rightarrow> arena \<Rightarrow> int \<Rightarrow> (error + unit) \<times> arena" where
  "vector_construct szT a n =
     (if n < 0 then (Inl LengthError, a)
      else if n = 0 then (Inr (), a)
      else (case ArenaAllocator_allocate szT a (word_of_int n) of
              (Inl e, a') \<Rightarrow> (Inl e, a')
            | (Inr p, a') \<Rightarrow> (Inr (), a')))"

text \<open>Sequencing: an exception ends the call, with the arena as it is at that point.\<close>

definition and_then :: "(error + 'a) \<times> arena \<Rightarrow> (arena \<Rightarrow> (error + 'b) \<times> arena) \<Rightarrow> (error + 'b) \<times> arena" where
  "and_then m f = (case m of (Inl e, a) \<Rightarrow> (Inl e, a) | (Inr x, a) \<Rightarrow> f a)"

text \<open>
  The \<open>c\<close> copies of the inner vector that
  \<^verbatim>\<open>std::vector<std::vector<double, ArenaAllocator<double>>>(c, inner)\<close> constructs.
\<close>

fun vector_copies :: "nat \<Rightarrow> arena \<Rightarrow> int \<Rightarrow> (error + unit) \<times> arena" where
  "vector_copies 0 a n = (Inr (), a)"
| "vector_copies (Suc c) a n = and_then (vector_construct 8 a n) (\<lambda>a'. vector_copies c a' n)"

section \<open>Layouts of the price lattice and the cash-flow table\<close>

text \<open>
  The five engines index their two tables by (path, time) in three ways: nested vectors
  \<^verbatim>\<open>S[i][j]\<close> (scalar), one flat vector \<^verbatim>\<open>S_flat[path * (num_steps + 1) + time]\<close> (arena and
  threaded variants) and nested vectors by time \<^verbatim>\<open>S_time_steps[t][i]\<close> (SIMD and ultimate
  variants). \<open>rd\<close> reads an entry, \<open>wr\<close> assigns one, and \<open>create\<close> is the
  value-initialised table for a number of paths and of columns \<^verbatim>\<open>num_steps + 1\<close>.
\<close>

record 'tbl layout =
  rd :: "'tbl \<Rightarrow> nat \<Rightarrow> nat \<Rightarrow> dbl"
  wr :: "'tbl \<Rightarrow> nat \<Rightarrow> nat \<Rightarrow> dbl \<Rightarrow> 'tbl"
  create :: "nat \<Rightarrow> nat \<Rightarrow> 'tbl"

definition path_major :: "dbl list list layout" where
  "path_major =
     \<lparr>rd = (\<lambda>tb i j. tb ! i ! j),
      wr = (\<lambda>tb i j v. tb[i := (tb ! i)[j := v]]),
      create = (\<lambda>n c. replicate n (replicate c 0))\<rparr>"

definition flat :: "nat \<Rightarrow> dbl list layout" where
  "flat num_steps =
     \<lparr>rd = (\<lambda>tb path time. tb ! (path * (num_steps + 1) + time)),
      wr = (\<lambda>tb path time v. tb[path * (num_steps + 1) + time := v]),
      create = (\<lambda>n c. replicate (n * c) 0)\<rparr>"

definition time_major :: "dbl list list layout" where
  "time_major =
     \<lparr>rd = (\<lambda>tb i t. tb ! t ! i),
      wr = (\<lambda>tb i t v. tb[t := (tb ! t)[i := v]]),
      create = (\<lambda>n c. replicate c (replicate n 0))\<rparr>"

section \<open>Regression solver (polyfit)\<close>

definition power_sum :: "(dbl \<Rightarrow> dbl \<Rightarrow> dbl) \<Rightarrow> dbl list \<Rightarrow> dbl list \<Rightarrow> dbl" where
  "power_sum f x y = fold (\<lambda>i s. s + f (x ! i) (y ! i)) [0..<length x] 0"

definition find_pivot :: "dbl list list \<Rightarrow> nat \<Rightarrow> nat" where
  "find_pivot A i = fold (\<lambda>j pivot. if \<bar>A ! pivot ! i\<bar> < \<bar>A ! j ! i\<bar> then j else pivot) [i + 1..<3] i"

definition swap :: "'a list \<Rightarrow> nat \<Rightarrow> nat \<Rightarrow> 'a list" where
  "swap xs i p = (xs[i := xs ! p])[p := xs ! i]"

definition eliminate_row :: "nat \<Rightarrow> nat \<Rightarrow> dbl list list \<times> dbl list \<Rightarrow> dbl list list \<times> dbl list" where
  "eliminate_row i j = (\<lambda>(A, b).
     let factor = A ! j ! i / A ! i ! i
     in (fold (\<lambda>k A. A[j := (A ! j)[k := A ! j ! k - factor * A ! i ! k]]) [i..<3] A,
         b[j := b ! j - factor * b ! i]))"

definition eliminate :: "nat \<Rightarrow> dbl list list \<times> dbl list \<Rightarrow> dbl list list \<times> dbl list" where
  "eliminate i = (\<lambda>(A, b).
     let pivot = find_pivot A i
     in fold (eliminate_row i) [i + 1..<3] (swap A i pivot, swap b i pivot))"

definition back_substitute :: "dbl list list \<Rightarrow> dbl list \<Rightarrow> dbl list" where
  "back_substitute A b =
     fold (\<lambda>i coeffs.
             coeffs[i := (b ! i - fold (\<lambda>j s. s + A ! i ! j * coeffs ! j) [i + 1..<3] 0) / A ! i ! i])
          [2, 1, 0] [0, 0, 0]"

definition polyfit :: "dbl list \<Rightarrow> dbl list \<Rightarrow> dbl list" where
  "polyfit x y =
     (let n = length x;
          S_x = power_sum (\<lambda>xi yi. xi) x y;
          S_y = power_sum (\<lambda>xi yi. yi) x y;
          S_xx = power_sum (\<lambda>xi yi. xi * xi) x y;
          S_xy = power_sum (\<lambda>xi yi. xi * yi) x y;
          S_xxx = power_sum (\<lambda>xi yi. xi * (xi * xi)) x y;
          S_xxy = power_sum (\<lambda>xi yi. xi * xi * yi) x y;
          S_xxxx = power_sum (\<lambda>xi yi. xi * xi * (xi * xi)) x y;
          A = [[fl (real n), S_x, S_xx], [S_x, S_xx, S_xxx], [S_xx, S_xxx, S_xxxx]];
          b = [S_y, S_xy, S_xxy];
          (A', b') = fold eliminate [0..<3] (A, b);
          coeffs = back_substitute A' b'
      in [coeffs ! 2, coeffs ! 1, coeffs ! 0])"

section \<open>Path simulator\<close>

text \<open>
  A random stream is the sequence of values that successive calls \<^verbatim>\<open>dist(rng)\<close> return;
  the simulator carries the number of calls made so far.
\<close>

definition simulate_step ::
  "'tbl layout \<Rightarrow> (nat \<Rightarrow> dbl) \<Rightarrow> dbl \<Rightarrow> dbl \<Rightarrow> dbl \<Rightarrow> nat \<Rightarrow> nat \<Rightarrow> 'tbl \<times> nat \<Rightarrow> 'tbl \<times> nat" where
  "simulate_step L Z r sigma dt i j = (\<lambda>(S, calls).
     let Z' = Z calls
     in (wr L S i j (rd L S i (j - 1)
           * exp_dbl ((r - fl (1 / 2) * sigma * sigma) * dt + sigma * sqrt_dbl dt * Z')),
         Suc calls))"

definition simulate_path ::
  "'tbl layout \<Rightarrow> (nat \<Rightarrow> dbl) \<Rightarrow> dbl \<Rightarrow> dbl \<Rightarrow> dbl \<Rightarrow> dbl \<Rightarrow> nat \<Rightarrow> nat \<Rightarrow> 'tbl \<times> nat \<Rightarrow> 'tbl \<times> nat" where
  "simulate_path L Z S0 r sigma dt M i = (\<lambda>(S, calls).
     fold (simulate_step L Z r sigma dt i) [1..<Suc M] (wr L S i 0 S0, calls))"

definition simulate_paths ::
  "'tbl layout \<Rightarrow> (nat \<Rightarrow> dbl) \<Rightarrow> dbl \<Rightarrow> dbl \<Rightarrow> dbl \<Rightarrow> dbl \<Rightarrow> nat \<Rightarrow> nat \<Rightarrow> 'tbl" where
  "simulate_paths L Z S0 r sigma dt N M =
     fst (fold (simulate_path L Z S0 r sigma dt M) [0..<N] (create L N (Suc M), 0))"

text \<open>
  The threaded path loop (\<^verbatim>\<open>#pragma omp parallel for\<close> over the paths): \<open>draw i j\<close> is the
  value that the generator of the thread running path \<open>i\<close> returns for step \<open>j\<close>. Each
  iteration writes its own path only, so the iterations are run in index order.
\<close>

definition simulate_paths_omp ::
  "'tbl layout \<Rightarrow> (nat \<Rightarrow> nat \<Rightarrow> dbl) \<Rightarrow> dbl \<Rightarrow> dbl \<Rightarrow> dbl \<Rightarrow> dbl \<Rightarrow> nat \<Rightarrow> nat \<Rightarrow> 'tbl" where
  "simulate_paths_omp L draw S0 r sigma dt N M =
     fold (\<lambda>i S.
             fold (\<lambda>j S. wr L S i j (rd L S i (j - 1)
                     * exp_dbl ((r - fl (1 / 2) * sigma * sigma) * dt + sigma * sqrt_dbl dt * draw i j)))
                  [1..<Suc M] (wr L S i 0 S0))
          [0..<N] (create L N (Suc M))"

text \<open>
  The SIMD kernel. A batch operation acts on its \<open>batch_size\<close> lanes independently: the
  batch at path \<open>i\<close> loads the previous-step prices and the draws of paths
  \<open>i, \<dots>, i + batch_size - 1\<close> and stores the current-step prices of the same paths.
\<close>

definition std_fill_row0 :: "'tbl layout \<Rightarrow> nat \<Rightarrow> dbl \<Rightarrow> 'tbl \<Rightarrow> 'tbl" where
  "std_fill_row0 L N S0 S = fold (\<lambda>i S. wr L S i 0 S0) [0..<N] S"

definition simd_batch ::
  "'tbl layout \<Rightarrow> nat \<Rightarrow> (nat \<Rightarrow> dbl) \<Rightarrow> dbl \<Rightarrow> dbl \<Rightarrow> nat \<Rightarrow> nat \<Rightarrow> 'tbl \<Rightarrow> 'tbl" where
  "simd_batch L batch_size z r_dt_batch sigma_sqrt_dt_batch j i S =
     fold (\<lambda>lane S. wr L S (i + lane) j
                      (rd L S (i + lane) (j - 1) * exp_dbl (r_dt_batch + sigma_sqrt_dt_batch * z (i + lane))))
          [0..<batch_size] S"

definition batch_starts :: "nat \<Rightarrow> nat \<Rightarrow> nat list" where
  "batch_starts batch_size N = filter (\<lambda>i. i mod batch_size = 0) [0..<N]"

definition simulate_simd ::
  "'tbl layout \<Rightarrow> nat \<Rightarrow> (nat \<Rightarrow> dbl) \<Rightarrow> dbl \<Rightarrow> dbl \<Rightarrow> dbl \<Rightarrow> dbl \<Rightarrow> nat \<Rightarrow> nat \<Rightarrow> 'tbl" where
  "simulate_simd L batch_size Z S0 r sigma dt N M =
     (let r_dt_batch = (r - fl (1 / 2) * sigma * sigma) * dt;
          sigma_sqrt_dt_batch = sigma * sqrt_dbl dt
      in fst (fold (\<lambda>j (S, calls).
                (let Z_buffer = map (\<lambda>i. Z (calls + i)) [0..<N]
                 in (fold (simd_batch L batch_size (\<lambda>i. Z_buffer ! i) r_dt_batch sigma_sqrt_dt_batch j)
                          (batch_starts batch_size N) S,
                     calls + N)))
              [1..<Suc M] (std_fill_row0 L N S0 (create L N (Suc M)), 0)))"

text \<open>
  The threaded SIMD kernel of the ultimate variant: \<open>draw i j\<close> is the value that the
  generator of the thread running the batch of path \<open>i\<close> puts into the lane of path \<open>i\<close>
  at step \<open>j\<close>.
\<close>

definition simulate_simd_omp ::
  "'tbl layout \<Rightarrow> nat \<Rightarrow> (nat \<Rightarrow> nat \<Rightarrow> dbl) \<Rightarrow> dbl \<Rightarrow> dbl \<Rightarrow> dbl \<Rightarrow> dbl \<Rightarrow> nat \<Rightarrow> nat \<Rightarrow> 'tbl" where
  "simulate_simd_omp L batch_size draw S0 r sigma dt N M =
     (let r_dt_batch = (r - fl (1 / 2) * sigma * sigma) * dt;
          sigma_sqrt_dt_batch = sigma * sqrt_dbl dt
      in fold (\<lambda>j S. fold (simd_batch L batch_size (\<lambda>i. draw i j) r_dt_batch sigma_sqrt_dt_batch j)
                           (batch_starts batch_size N) S)
              [1..<Suc M] (std_fill_row0 L N S0 (create L N (Suc M))))"

section \<open>Backward induction\<close>

definition terminal_payoff :: "'tbl layout \<Rightarrow> dbl \<Rightarrow> 'tbl \<Rightarrow> nat \<Rightarrow> nat \<Rightarrow> 'tbl \<Rightarrow> 'tbl" where
  "terminal_payoff L K S N M cash_flows =
     fold (\<lambda>i cf. wr L cf i M (std_max 0 (K - rd L S i M))) [0..<N] cash_flows"

text \<open>The scan \<^verbatim>\<open>for (j = t + 1; j <= num_steps; ++j)\<close> with its \<^verbatim>\<open>break\<close>, from index \<open>j\<close> on.\<close>

function future_cf_from ::
  "'tbl layout \<Rightarrow> dbl \<Rightarrow> dbl \<Rightarrow> 'tbl \<Rightarrow> nat \<Rightarrow> nat \<Rightarrow> nat \<Rightarrow> nat \<Rightarrow> dbl" where
  "future_cf_from L r dt cash_flows M i t j =
     (if M < j then 0
      else if 0 < rd L cash_flows i j
      then rd L cash_flows i j * exp_dbl (- r * double_of_int (int j - int t) * dt)
      else future_cf_from L r dt cash_flows M i t (Suc j))"
  by pat_completeness auto
termination
  by (relation "measure (\<lambda>(L, r, dt, cash_flows, M, i, t, j). Suc M - j)") auto

definition future_cf :: "'tbl layout \<Rightarrow> dbl \<Rightarrow> dbl \<Rightarrow> 'tbl \<Rightarrow> nat \<Rightarrow> nat \<Rightarrow> nat \<Rightarrow> dbl" where
  "future_cf L r dt cash_flows M i t = future_cf_from L r dt cash_flows M i t (Suc t)"

definition in_the_money_paths :: "'tbl layout \<Rightarrow> dbl \<Rightarrow> 'tbl \<Rightarrow> nat \<Rightarrow> nat \<Rightarrow> nat list" where
  "in_the_money_paths L K S N t = filter (\<lambda>i. 0 < K - rd L S i t) [0..<N]"

definition x_itm :: "'tbl layout \<Rightarrow> dbl \<Rightarrow> 'tbl \<Rightarrow> nat \<Rightarrow> nat \<Rightarrow> dbl list" where
  "x_itm L K S N t = map (\<lambda>i. rd L S i t) (in_the_money_paths L K S N t)"

definition y_itm ::
  "'tbl layout \<Rightarrow> dbl \<Rightarrow> dbl \<Rightarrow> dbl \<Rightarrow> 'tbl \<Rightarrow> 'tbl \<Rightarrow> nat \<Rightarrow> nat \<Rightarrow> nat \<Rightarrow> dbl list" where
  "y_itm L K r dt S cash_flows N M t =
     map (\<lambda>i. future_cf L r dt cash_flows M i t) (in_the_money_paths L K S N t)"

text \<open>The body of \<^verbatim>\<open>if (intrinsic_value > continuation_value)\<close>.\<close>

definition exercise :: "'tbl layout \<Rightarrow> nat \<Rightarrow> nat \<Rightarrow> nat \<Rightarrow> dbl \<Rightarrow> 'tbl \<Rightarrow> 'tbl" where
  "exercise L M path_idx t intrinsic_value cash_flows =
     fold (\<lambda>j cf. wr L cf path_idx j 0) [Suc t..<Suc M] (wr L cash_flows path_idx t intrinsic_value)"

definition exercise_decision ::
  "'tbl layout \<Rightarrow> dbl \<Rightarrow> 'tbl \<Rightarrow> nat \<Rightarrow> nat \<Rightarrow> dbl list \<Rightarrow> nat list \<Rightarrow> dbl list \<Rightarrow> nat \<Rightarrow> 'tbl \<Rightarrow> 'tbl" where
  "exercise_decision L K S M t coeffs itm xs n cash_flows =
     (let path_idx = itm ! n;
          x_val = xs ! n;
          continuation_value = coeffs ! 0 * x_val * x_val + coeffs ! 1 * x_val + coeffs ! 2;
          intrinsic_value = std_max 0 (K - rd L S path_idx t)
      in if continuation_value < intrinsic_value
         then exercise L M path_idx t intrinsic_value cash_flows
         else cash_flows)"

definition exercise_update ::
  "'tbl layout \<Rightarrow> dbl \<Rightarrow> 'tbl \<Rightarrow> nat \<Rightarrow> nat \<Rightarrow> dbl list \<Rightarrow> nat list \<Rightarrow> dbl list \<Rightarrow> 'tbl \<Rightarrow> 'tbl" where
  "exercise_update L K S M t coeffs itm xs cash_flows =
     fold (exercise_decision L K S M t coeffs itm xs) [0..<length itm] cash_flows"

definition backward_step ::
  "'tbl layout \<Rightarrow> dbl \<Rightarrow> dbl \<Rightarrow> dbl \<Rightarrow> 'tbl \<Rightarrow> nat \<Rightarrow> nat \<Rightarrow> nat \<Rightarrow> 'tbl \<Rightarrow> 'tbl" where
  "backward_step L K r dt S N M t cash_flows =
     (let itm = in_the_money_paths L K S N t;
          xs = x_itm L K S N t;
          ys = y_itm L K r dt S cash_flows N M t
      in if xs = [] then cash_flows
         else exercise_update L K S M t (polyfit xs ys) itm xs cash_flows)"

text \<open>The dates of \<^verbatim>\<open>for (int t = num_steps - 1; t > 0; --t)\<close>, in the order of the loop.\<close>

definition interior_dates :: "nat \<Rightarrow> nat list" where
  "interior_dates M = rev [1..<M]"

definition backward_induction ::
  "'tbl layout \<Rightarrow> dbl \<Rightarrow> dbl \<Rightarrow> dbl \<Rightarrow> 'tbl \<Rightarrow> nat \<Rightarrow> nat \<Rightarrow> 'tbl \<Rightarrow> 'tbl" where
  "backward_induction L K r dt S N M cash_flows =
     fold (backward_step L K r dt S N M) (interior_dates M) cash_flows"

definition cash_flow_table ::
  "'tbl layout \<Rightarrow> dbl \<Rightarrow> dbl \<Rightarrow> dbl \<Rightarrow> 'tbl \<Rightarrow> nat \<Rightarrow> nat \<Rightarrow> 'tbl" where
  "cash_flow_table L K r dt S N M =
     backward_induction L K r dt S N M (terminal_payoff L K S N M (create L N (Suc M)))"

section \<open>Aggregation\<close>

text \<open>The scan \<^verbatim>\<open>for (j = 1; j <= num_steps; ++j)\<close> of one path, from index \<open>j\<close> on.\<close>

function first_payoff_from ::
  "'tbl layout \<Rightarrow> dbl \<Rightarrow> dbl \<Rightarrow> 'tbl \<Rightarrow> nat \<Rightarrow> nat \<Rightarrow> nat \<Rightarrow> dbl option" where
  "first_payoff_from L r dt cash_flows M i j =
     (if M < j then None
      else if 0 < rd L cash_flows i j
      then Some (rd L cash_flows i j * exp_dbl (- r * double_of_int (int j) * dt))
      else first_payoff_from L r dt cash_flows M i (Suc j))"
  by pat_completeness auto
termination
  by (relation "measure (\<lambda>(L, r, dt, cash_flows, M, i, j). Suc M - j)") auto

text \<open>
  The threaded variants reduce the per-path terms with \<^verbatim>\<open>reduction(+:total_payoff)\<close>; the
  terms are added in path order here.
\<close>

definition total_payoff :: "'tbl layout \<Rightarrow> dbl \<Rightarrow> dbl \<Rightarrow> 'tbl \<Rightarrow> nat \<Rightarrow> nat \<Rightarrow> dbl" where
  "total_payoff L r dt cash_flows N M =
     fold (\<lambda>i total. case first_payoff_from L r dt cash_flows M i 1 of
                        None \<Rightarrow> total
                      | Some p \<Rightarrow> total + p)
          [0..<N] 0"

definition lsm_price ::
  "'tbl layout \<Rightarrow> dbl \<Rightarrow> dbl \<Rightarrow> dbl \<Rightarrow> 'tbl \<Rightarrow> int \<Rightarrow> int \<Rightarrow> dbl" where
  "lsm_price L K r dt S num_paths num_steps =
     total_payoff L r dt (cash_flow_table L K r dt S (nat num_paths) (nat num_steps))
       (nat num_paths) (nat num_steps)
     / double_of_int num_paths"

section \<open>The five pricing entry points\<close>

text \<open>
  \<open>rng seed\<close> is the stream of standard-normal draws of \<^verbatim>\<open>std::mt19937_64 rng(seed)\<close> under
  \<^verbatim>\<open>std::normal_distribution<double>\<close>; \<open>draw\<close> is the assignment of draws to (path, step)
  that the thread schedule produces in the threaded variants; \<open>batch_size\<close> is
  \<^verbatim>\<open>xs::batch<double>::size\<close>.

  The scalar variant constructs its rows with \<^verbatim>\<open>num_steps + 1\<close> elements: a negative
  count, also one that \<^verbatim>\<open>num_steps + 1\<close> wraps to, throws \<^verbatim>\<open>std::length_error\<close>, and with
  a path and no element \<^verbatim>\<open>S[i][0]\<close> is outside the row.
\<close>

definition price_american_put_lsm_cpp ::
  "(int \<Rightarrow> nat \<Rightarrow> dbl) \<Rightarrow> dbl \<Rightarrow> dbl \<Rightarrow> dbl \<Rightarrow> dbl \<Rightarrow> dbl \<Rightarrow> int \<Rightarrow> int \<Rightarrow> int \<Rightarrow> error + dbl" where
  "price_american_put_lsm_cpp rng S0 K T r sigma num_paths num_steps seed =
     (let dt = T / double_of_int num_steps
      in if int32 (num_steps + 1) < 0 \<or> num_paths < 0 then Inl LengthError
         else if 0 < num_paths \<and> int32 (num_steps + 1) = 0 then Inl OutOfRange
         else Inr (lsm_price path_major K r dt
                     (simulate_paths path_major (rng seed) S0 r sigma dt (nat num_paths) (nat num_steps))
                     num_paths num_steps))"

text \<open>
  The flat tables of the arena and of the threaded variant are constructed with
  \<^verbatim>\<open>num_paths * (num_steps + 1)\<close> elements, an \<^verbatim>\<open>int\<close> product. With at least one path
  the path loop assigns the indices from 0 up to the exact product less one in
  increasing order, so it leaves the table when the table has another size than the exact
  product, or when \<^verbatim>\<open>num_steps + 1\<close> is not positive.
\<close>

definition flat_size :: "int \<Rightarrow> int \<Rightarrow> int" where
  "flat_size num_paths num_steps = int32 (num_paths * int32 (num_steps + 1))"

definition leaves_flat_table :: "int \<Rightarrow> int \<Rightarrow> bool" where
  "leaves_flat_table num_paths num_steps \<longleftrightarrow>
     0 < num_paths \<and> (num_steps + 1 \<le> 0 \<or> flat_size num_paths num_steps \<noteq> num_paths * (num_steps + 1))"

definition price_american_put_lsm_arena ::
  "(int \<Rightarrow> nat \<Rightarrow> dbl) \<Rightarrow> arena \<Rightarrow> dbl \<Rightarrow> dbl \<Rightarrow> dbl \<Rightarrow> dbl \<Rightarrow> dbl \<Rightarrow> int \<Rightarrow> int \<Rightarrow> int
     \<Rightarrow> (error + dbl) \<times> arena" where
  "price_american_put_lsm_arena rng arena S0 K T r sigma num_paths num_steps seed =
     (let dt = T / double_of_int num_steps
      in and_then (vector_construct 8 (reset arena) (flat_size num_paths num_steps)) (\<lambda>a.
         and_then (vector_construct 8 a (flat_size num_paths num_steps)) (\<lambda>a.
         and_then (vector_construct 4 a num_paths) (\<lambda>a.
         and_then (vector_construct 8 a num_paths) (\<lambda>a.
         and_then (vector_construct 8 a num_paths) (\<lambda>a.
           if leaves_flat_table num_paths num_steps then (Inl OutOfRange, a)
           else (Inr (lsm_price (flat (nat num_steps)) K r dt
                        (simulate_paths (flat (nat num_steps)) (rng seed) S0 r sigma dt
                           (nat num_paths) (nat num_steps))
                        num_paths num_steps), a)))))))"

definition price_american_put_lsm_mp ::
  "(nat \<Rightarrow> nat \<Rightarrow> dbl) \<Rightarrow> arena \<Rightarrow> dbl \<Rightarrow> dbl \<Rightarrow> dbl \<Rightarrow> dbl \<Rightarrow> dbl \<Rightarrow> int \<Rightarrow> int \<Rightarrow> int
     \<Rightarrow> (error + dbl) \<times> arena" where
  "price_american_put_lsm_mp draw arena S0 K T r sigma num_paths num_steps seed =
     (let dt = T / double_of_int num_steps
      in and_then (vector_construct 8 (reset arena) (flat_size num_paths num_steps)) (\<lambda>a.
           if leaves_flat_table num_paths num_steps then (Inl OutOfRange, a)
           else
         and_then (vector_construct 8 a (flat_size num_paths num_steps)) (\<lambda>a.
         and_then (vector_construct 4 a num_paths) (\<lambda>a.
         and_then (vector_construct 8 a num_paths) (\<lambda>a.
         and_then (vector_construct 8 a num_paths) (\<lambda>a.
           (Inr (lsm_price (flat (nat num_steps)) K r dt
                   (simulate_paths_omp (flat (nat num_steps)) draw S0 r sigma dt
                      (nat num_paths) (nat num_steps))
                   num_paths num_steps), a)))))))"

text \<open>
  The SIMD variants construct \<^verbatim>\<open>num_steps + 1\<close> rows of \<^verbatim>\<open>num_paths\<close> elements, and fill
  row 0, which is outside the table when there is no row.
\<close>

definition price_american_put_lsm_simd ::
  "nat \<Rightarrow> (int \<Rightarrow> nat \<Rightarrow> dbl) \<Rightarrow> dbl \<Rightarrow> dbl \<Rightarrow> dbl \<Rightarrow> dbl \<Rightarrow> dbl \<Rightarrow> int \<Rightarrow> int \<Rightarrow> int \<Rightarrow> error + dbl" where
  "price_american_put_lsm_simd batch_size rng S0 K T r sigma num_paths num_steps seed =
     (if size_t_of_int num_paths mod batch_size \<noteq> 0 then Inl ConfigurationError
      else let dt = T / double_of_int num_steps
      in if num_paths < 0 \<or> int32 (num_steps + 1) < 0 then Inl LengthError
         else if int32 (num_steps + 1) = 0 then Inl OutOfRange
         else Inr (lsm_price time_major K r dt
                     (simulate_simd time_major batch_size (rng seed) S0 r sigma dt
                        (nat num_paths) (nat num_steps))
                     num_paths num_steps))"

definition price_american_put_lsm_ultimate ::
  "nat \<Rightarrow> (nat \<Rightarrow> nat \<Rightarrow> dbl) \<Rightarrow> arena \<Rightarrow> dbl \<Rightarrow> dbl \<Rightarrow> dbl \<Rightarrow> dbl \<Rightarrow> dbl \<Rightarrow> int \<Rightarrow> int \<Rightarrow> int
     \<Rightarrow> (error + dbl) \<times> arena" where
  "price_american_put_lsm_ultimate batch_size draw arena S0 K T r sigma num_paths num_steps seed =
     (let a = reset arena
      in if size_t_of_int num_paths mod batch_size \<noteq> 0 then (Inl ConfigurationError, a)
      else let dt = T / double_of_int num_steps
      in and_then (vector_construct 8 a num_paths) (\<lambda>a.
           if int32 (num_steps + 1) < 0 then (Inl LengthError, a)
           else
         and_then (vector_copies (nat (int32 (num_steps + 1))) a num_paths) (\<lambda>a.
           if int32 (num_steps + 1) = 0 then (Inl OutOfRange, a)
           else
         and_then (vector_construct 8 a num_paths) (\<lambda>a.
         and_then (vector_copies (nat (int32 (num_steps + 1))) a num_paths) (\<lambda>a.
         and_then (vector_construct 4 a num_paths) (\<lambda>a.
         and_then (vector_construct 8 a num_paths) (\<lambda>a.
         and_then (vector_construct 8 a num_paths) (\<lambda>a.
           (Inr (lsm_price time_major K r dt
                   (simulate_simd_omp time_major batch_size draw S0 r sigma dt
                      (nat num_paths) (nat num_steps))
                   num_paths num_steps), a)))))))))"

section \<open>Predicates of the properties\<close>

text \<open>
  A layout is lawful for \<open>N\<close> paths and dates \<open>0, \<dots>, M\<close> on the tables that \<open>ok\<close>
  admits when the created table is admitted and reads zero, and an in-range assignment
  keeps the table admitted and changes exactly the assigned entry.
\<close>

definition lawful :: "'tbl layout \<Rightarrow> ('tbl \<Rightarrow> bool) \<Rightarrow> nat \<Rightarrow> nat \<Rightarrow> bool" where
  "lawful L ok N M \<longleftrightarrow>
     ok (create L N (Suc M)) \<and>
     (\<forall>i<N. \<forall>j\<le>M. rd L (create L N (Suc M)) i j = 0) \<and>
     (\<forall>tb i j v. ok tb \<longrightarrow> i < N \<longrightarrow> j \<le> M \<longrightarrow>
        ok (wr L tb i j v) \<and>
        (\<forall>i'<N. \<forall>j'\<le>M. rd L (wr L tb i j v) i' j' = (if i' = i \<and> j' = j then v else rd L tb i' j')))"

definition shape_path_major :: "nat \<Rightarrow> nat \<Rightarrow> dbl list list \<Rightarrow> bool" where
  "shape_path_major N M tb \<longleftrightarrow> length tb = N \<and> (\<forall>row\<in>set tb. length row = Suc M)"

definition shape_flat :: "nat \<Rightarrow> nat \<Rightarrow> dbl list \<Rightarrow> bool" where
  "shape_flat N M tb \<longleftrightarrow> length tb = N * Suc M"

definition shape_time_major :: "nat \<Rightarrow> nat \<Rightarrow> dbl list list \<Rightarrow> bool" where
  "shape_time_major N M tb \<longleftrightarrow> length tb = Suc M \<and> (\<forall>row\<in>set tb. length row = N)"

text \<open>
  The invariant of the backward induction before date \<open>t\<close> is processed: on every path
  the entries before \<open>t\<close> are zero, no entry is negative or NaN, and at most one entry
  from \<open>t\<close> on is nonzero. \<open>nonzero_dates\<close> is the set of time indices in \<open>[1, M]\<close> at
  which a path has a nonzero cash flow.
\<close>

definition table_inv :: "'tbl layout \<Rightarrow> nat \<Rightarrow> nat \<Rightarrow> nat \<Rightarrow> 'tbl \<Rightarrow> bool" where
  "table_inv L N M t cf \<longleftrightarrow>
     (\<forall>i<N. (\<forall>j<t. j \<le> M \<longrightarrow> rd L cf i j = 0)
          \<and> (\<forall>j\<le>M. 0 \<le> rd L cf i j)
          \<and> (\<forall>j1 j2. t \<le> j1 \<and> j1 \<le> M \<and> t \<le> j2 \<and> j2 \<le> M
                 \<and> rd L cf i j1 \<noteq> 0 \<and> rd L cf i j2 \<noteq> 0 \<longrightarrow> j1 = j2))"

definition nonzero_dates :: "'tbl layout \<Rightarrow> 'tbl \<Rightarrow> nat \<Rightarrow> nat \<Rightarrow> nat set" where
  "nonzero_dates L cf M i = {j. 1 \<le> j \<and> j \<le> M \<and> rd L cf i j \<noteq> 0}"

text \<open>
  \<open>j\<close> is the time index of the first positive cash flow of path \<open>i\<close> after date \<open>t\<close>.
\<close>

definition first_positive_after :: "'tbl layout \<Rightarrow> 'tbl \<Rightarrow> nat \<Rightarrow> nat \<Rightarrow> nat \<Rightarrow> nat \<Rightarrow> bool" where
  "first_positive_after L cf M i t j \<longleftrightarrow>
     t < j \<and> j \<le> M \<and> 0 < rd L cf i j \<and> (\<forall>j'. t < j' \<and> j' < j \<longrightarrow> \<not> 0 < rd L cf i j')"

text \<open>The error that a call ends with, if any.\<close>

definition failure :: "error + dbl \<Rightarrow> error option" where
  "failure res = (case res of Inl e \<Rightarrow> Some e | Inr p \<Rightarrow> None)"

text \<open>
  A valid configuration: the preconditions of the specification, on finite values.
\<close>

fun is_finite :: "dbl \<Rightarrow> bool" where
  "is_finite (Fin x) = True"
| "is_finite PInf = False"
| "is_finite MInf = False"
| "is_finite NaN = False"

definition valid_configuration :: "dbl \<Rightarrow> dbl \<Rightarrow> dbl \<Rightarrow> dbl \<Rightarrow> dbl \<Rightarrow> int \<Rightarrow> int \<Rightarrow> bool" where
  "valid_configuration S0 K T r sigma num_paths num_steps \<longleftrightarrow>
     1 \<le> num_steps \<and> 1 \<le> num_paths \<and> 0 < T \<and> 0 \<le> sigma
     \<and> is_finite S0 \<and> is_finite K \<and> is_finite T \<and> is_finite r \<and> is_finite sigma"

text \<open>
  Every entry of a table satisfies \<open>P\<close>, and path \<open>i\<close> has a positive cash flow at one of the
  dates \<open>1, \<dots>, M\<close>.
\<close>

definition entries_satisfy :: "'tbl layout \<Rightarrow> nat \<Rightarrow> nat \<Rightarrow> (dbl \<Rightarrow> bool) \<Rightarrow> 'tbl \<Rightarrow> bool" where
  "entries_satisfy L N M P tb \<longleftrightarrow> (\<forall>i<N. \<forall>j\<le>M. P (rd L tb i j))"

definition pays :: "'tbl layout \<Rightarrow> nat \<Rightarrow> 'tbl \<Rightarrow> nat \<Rightarrow> bool" where
  "pays L M cf i \<longleftrightarrow> (\<exists>j. 1 \<le> j \<and> j \<le> M \<and> 0 < rd L cf i j)"


text \<open>
  The floating-point average of \<open>n\<close> copies of a value: the running sum of \<open>n\<close> copies,
  started at 0, divided by \<open>n\<close>.
\<close>

definition average_of_copies :: "dbl \<Rightarrow> int \<Rightarrow> dbl" where
  "average_of_copies v n = fold (\<lambda>i s. s + v) [0..<nat n] 0 / double_of_int n"

text \<open>
  The specification's wording of the forward recurrence: one update of a price by a draw
  \<open>z\<close>, and a lattice whose time-0 entries are \<open>S0\<close> and whose entry at each step
  \<open>1, \<dots>, M\<close> is the update of the previous entry of its path by the draw of that path and
  step. The product \<open>0.5 \<cdot> sigma\<^sup>2\<close> is rounded as \<open>(0.5 \<cdot> sigma) \<cdot> sigma\<close>.
\<close>

definition gbm_update :: "dbl \<Rightarrow> dbl \<Rightarrow> dbl \<Rightarrow> dbl \<Rightarrow> dbl \<Rightarrow> dbl" where
  "gbm_update s r sigma dt z =
     s * exp_dbl ((r - fl (1 / 2) * sigma * sigma) * dt + sigma * sqrt_dbl dt * z)"

definition follows_gbm ::
  "'tbl layout \<Rightarrow> 'tbl \<Rightarrow> (nat \<Rightarrow> nat \<Rightarrow> dbl) \<Rightarrow> dbl \<Rightarrow> dbl \<Rightarrow> dbl \<Rightarrow> dbl \<Rightarrow> nat \<Rightarrow> nat \<Rightarrow> bool" where
  "follows_gbm L S draw S0 r sigma dt N M \<longleftrightarrow>
     (\<forall>i<N. rd L S i 0 = S0
        \<and> (\<forall>j. 1 \<le> j \<and> j \<le> M \<longrightarrow>
              rd L S i j = gbm_update (rd L S i (j - 1)) r sigma dt (draw i j)))"

section \<open>Rounding\<close>

lemma pow2_powr: "pow2 e = 2 powr real_of_int e"
  by (simp add: pow2_def powr_int)

lemma pow2_pos [simp]: "0 < pow2 e"
  by (simp add: pow2_powr)

lemma pow2_nonneg [simp]: "0 \<le> pow2 e"
  by (simp add: pow2_powr)

lemma pow2_neq0 [simp]: "pow2 e \<noteq> 0"
  by (simp add: pow2_powr)

lemma pow2_add: "pow2 (a + b) = pow2 a * pow2 b"
  by (simp add: pow2_powr powr_add)

lemma pow2_diff: "pow2 (a - b) = pow2 a / pow2 b"
  by (simp add: pow2_powr powr_diff)

lemma pow2_le_iff [simp]: "pow2 a \<le> pow2 b \<longleftrightarrow> a \<le> b"
  by (simp add: pow2_powr)

lemma pow2_less_iff [simp]: "pow2 a < pow2 b \<longleftrightarrow> a < b"
  by (simp add: pow2_powr)

lemma pow2_0 [simp]: "pow2 0 = 1"
  by (simp add: pow2_def)

lemma pow2_nat: "0 \<le> e \<Longrightarrow> pow2 e = of_int (2 ^ nat e)"
  by (simp add: pow2_def)

lemma pow2_numeral: "pow2 (numeral k) = 2 ^ numeral k"
  by (simp add: pow2_def)

lemma pow2_neg_numeral: "pow2 (- numeral k) = 1 / 2 ^ numeral k"
  by (simp add: pow2_def)

text \<open>round_half_even\<close>

lemma round_half_even_of_int [simp]: "round_half_even (of_int n) = n"
  by (simp add: round_half_even_def)

lemma round_half_even_floor: "round_half_even y = \<lfloor>y\<rfloor> \<or> round_half_even y = \<lfloor>y\<rfloor> + 1"
  by (simp add: round_half_even_def Let_def)

lemma round_half_even_ge: "of_int n \<le> y \<Longrightarrow> n \<le> round_half_even y"
  using round_half_even_floor [of y] le_floor_iff [of n y] by linarith

lemma round_half_even_le:
  assumes "y \<le> of_int n"
  shows "round_half_even y \<le> n"
proof (cases "y = of_int \<lfloor>y\<rfloor>")
  case True
  then have "round_half_even y = \<lfloor>y\<rfloor>"
    by (metis round_half_even_of_int)
  moreover have "\<lfloor>y\<rfloor> \<le> n" using assms by (simp add: floor_le_iff)
  ultimately show ?thesis by simp
next
  case False
  then have "of_int \<lfloor>y\<rfloor> < y" using of_int_floor_le [of y] by linarith
  then have "of_int \<lfloor>y\<rfloor> < (of_int n :: real)" using assms by linarith
  then have "\<lfloor>y\<rfloor> < n" by simp
  then show ?thesis using round_half_even_floor [of y] by linarith
qed

lemma round_half_even_neg: "round_half_even (- y) = - round_half_even y"
proof (cases "y = of_int \<lfloor>y\<rfloor>")
  case True
  then obtain n where "y = of_int n" ..
  then show ?thesis by (simp flip: of_int_minus)
next
  case False
  then have lt: "of_int \<lfloor>y\<rfloor> < y" using of_int_floor_le [of y] by linarith
  have up: "y < of_int \<lfloor>y\<rfloor> + 1" by linarith
  have f: "\<lfloor>- y\<rfloor> = - \<lfloor>y\<rfloor> - 1"
  proof (rule floor_unique)
    have "- real_of_int \<lfloor>y\<rfloor> - 1 \<le> - y" using up by linarith
    then show "of_int (- \<lfloor>y\<rfloor> - 1) \<le> - y" by simp
    have "- y < - real_of_int \<lfloor>y\<rfloor>" using lt by linarith
    then show "- y < of_int (- \<lfloor>y\<rfloor> - 1) + 1" by simp
  qed
  show ?thesis
    unfolding round_half_even_def Let_def f using lt
    by (auto simp: field_simps)
qed

lemma round_half_even_small: "\<bar>y\<bar> \<le> 1 / 2 \<Longrightarrow> round_half_even y = 0"
proof -
  assume a: "\<bar>y\<bar> \<le> 1 / 2"
  show ?thesis
  proof (cases "0 \<le> y")
    case True
    then have "\<lfloor>y\<rfloor> = 0" using a by (intro floor_unique) simp_all
    then show ?thesis using a True by (simp add: round_half_even_def Let_def)
  next
    case False
    then have "\<lfloor>y\<rfloor> = - 1" using a by (intro floor_unique) simp_all
    then show ?thesis using a False by (auto simp: round_half_even_def Let_def)
  qed
qed


text \<open>quantum\<close>

lemma floor_log2_bounds:
  assumes "x \<noteq> 0"
  shows "pow2 \<lfloor>log 2 \<bar>x\<bar>\<rfloor> \<le> \<bar>x\<bar>" and "\<bar>x\<bar> < pow2 (\<lfloor>log 2 \<bar>x\<bar>\<rfloor> + 1)"
  using floor_log_eq_powr_iff [of "\<bar>x\<bar>" 2 "\<lfloor>log 2 \<bar>x\<bar>\<rfloor>"] assms by (simp_all add: pow2_powr)

lemma floor_log2_eq:
  assumes "pow2 k \<le> \<bar>x\<bar>" and "\<bar>x\<bar> < pow2 (k + 1)"
  shows "\<lfloor>log 2 \<bar>x\<bar>\<rfloor> = k"
proof -
  have "0 < \<bar>x\<bar>" using assms(1) pow2_pos [of k] by linarith
  then show ?thesis
    using floor_log_eq_powr_iff [of "\<bar>x\<bar>" 2 k] assms by (simp add: pow2_powr)
qed

lemma floor_log2_mono: "x \<noteq> 0 \<Longrightarrow> \<bar>x\<bar> \<le> \<bar>y\<bar> \<Longrightarrow> \<lfloor>log 2 \<bar>x\<bar>\<rfloor> \<le> \<lfloor>log 2 \<bar>y\<bar>\<rfloor>"
  by (intro floor_mono log_mono) auto

lemma quantum_exp_ge: "- 1074 \<le> quantum_exp x"
  by (simp add: quantum_exp_def)

lemma quantum_exp_mono: "x \<noteq> 0 \<Longrightarrow> \<bar>x\<bar> \<le> \<bar>y\<bar> \<Longrightarrow> quantum_exp x \<le> quantum_exp y"
  using floor_log2_mono [of x y] by (simp add: quantum_exp_def)

lemma quantum_exp_neg [simp]: "quantum_exp (- x) = quantum_exp x"
  by (simp add: quantum_exp_def)

lemma scaled_less: "\<bar>x\<bar> < 2 ^ 53 * pow2 (quantum_exp x)"
proof (cases "x = 0")
  case True
  then show ?thesis by simp
next
  case False
  define k where "k = \<lfloor>log 2 \<bar>x\<bar>\<rfloor>"
  have "\<bar>x\<bar> < pow2 (k + 1)" unfolding k_def by (rule floor_log2_bounds [OF False])
  also have "\<dots> \<le> pow2 (53 + quantum_exp x)" by (simp add: quantum_exp_def k_def)
  also have "\<dots> = 2 ^ 53 * pow2 (quantum_exp x)" by (simp add: pow2_add pow2_numeral)
  finally show ?thesis .
qed

lemma scaled_ge:
  assumes "x \<noteq> 0" and "- 1074 < quantum_exp x"
  shows "2 ^ 52 * pow2 (quantum_exp x) \<le> \<bar>x\<bar>"
proof -
  define k where "k = \<lfloor>log 2 \<bar>x\<bar>\<rfloor>"
  have q: "quantum_exp x = k - 52" using assms(2) by (simp add: quantum_exp_def k_def max_def split: if_splits)
  have "2 ^ 52 * pow2 (quantum_exp x) = pow2 (52 + (k - 52))" unfolding q by (simp only: pow2_add pow2_numeral)
  also have "\<dots> = pow2 k" by simp
  also have "\<dots> \<le> \<bar>x\<bar>" unfolding k_def by (rule floor_log2_bounds [OF assms(1)])
  finally show ?thesis .
qed

lemma round_half_even_0 [simp]: "round_half_even 0 = 0"
  using round_half_even_of_int [of 0] by simp

lemma round_real_0 [simp]: "round_real 0 = 0"
  by (simp add: round_real_def)

lemma round_real_neg: "round_real (- x) = - round_real x"
  by (simp add: round_real_def round_half_even_neg)

lemma round_real_on_grid:
  assumes "x = of_int n * pow2 (quantum_exp x)"
  shows "round_real x = x"
proof -
  have "x / pow2 (quantum_exp x) = of_int n" using assms by (simp add: field_simps)
  then show ?thesis unfolding round_real_def using assms by simp
qed

lemma round_real_grid_strict:
  assumes m: "\<bar>m\<bar> < 2 ^ 53" and e: "- 1074 \<le> e"
  shows "round_real (of_int m * pow2 e) = of_int m * pow2 e"
proof (cases "m = 0")
  case True
  then show ?thesis by simp
next
  case False
  define y where "y = of_int m * pow2 e"
  define q where "q = quantum_exp y"
  have y0: "y \<noteq> 0" using False by (simp add: y_def)
  have ay: "\<bar>y\<bar> = of_int \<bar>m\<bar> * pow2 e" by (simp add: y_def abs_mult)
  have qe: "q \<le> e"
  proof (rule ccontr)
    assume "\<not> q \<le> e"
    then have lt: "e < q" by simp
    then have "- 1074 < quantum_exp y" using e by (simp add: q_def)
    from scaled_ge [OF y0 this] have "2 ^ 52 * pow2 q \<le> of_int \<bar>m\<bar> * pow2 e" by (simp add: q_def ay)
    moreover have "pow2 (e + 1) \<le> pow2 q" using lt by simp
    then have "2 * pow2 e \<le> pow2 q" by (simp add: pow2_add pow2_def [of 1])
    then have "2 ^ 52 * (2 * pow2 e) \<le> 2 ^ 52 * pow2 q" by (intro mult_left_mono) simp_all
    moreover have "(2 ^ 53 :: real) * pow2 e = 2 ^ 52 * (2 * pow2 e)" by simp
    ultimately have "2 ^ 53 * pow2 e \<le> of_int \<bar>m\<bar> * pow2 e" by linarith
    then have "(2 ^ 53 :: real) \<le> of_int \<bar>m\<bar>" by (simp only: mult_le_cancel_right_pos [OF pow2_pos])
    then have "(2 ^ 53 :: int) \<le> \<bar>m\<bar>" by (metis of_int_le_iff of_int_numeral of_int_power)
    then show False using m by simp
  qed
  have "pow2 e = pow2 ((e - q) + q)" by simp
  also have "\<dots> = of_int (2 ^ nat (e - q)) * pow2 q"
    using qe by (simp only: pow2_add) (simp add: pow2_nat)
  finally have "y = of_int (m * 2 ^ nat (e - q)) * pow2 (quantum_exp y)"
    by (simp add: y_def q_def)
  then have "round_real y = y" by (rule round_real_on_grid)
  then show ?thesis by (simp add: y_def)
qed

lemma round_real_grid:
  assumes m: "\<bar>m\<bar> \<le> 2 ^ 53" and e: "- 1074 \<le> e"
  shows "round_real (of_int m * pow2 e) = of_int m * pow2 e"
proof (cases "\<bar>m\<bar> < 2 ^ 53")
  case True
  then show ?thesis using e by (rule round_real_grid_strict)
next
  case False
  then have "\<bar>m\<bar> = 2 ^ 53" using m by simp
  then have "m = 2 ^ 53 \<or> m = - (2 ^ 53)" by linarith
  then have eq: "of_int m * pow2 e = of_int (m div 2) * pow2 (e + 1)"
    by (auto simp: pow2_add pow2_def [of 1])
  have "\<bar>m div 2\<bar> < 2 ^ 53" using \<open>m = 2 ^ 53 \<or> m = - (2 ^ 53)\<close> by auto
  moreover have "- 1074 \<le> e + 1" using e by simp
  ultimately show ?thesis unfolding eq by (rule round_real_grid_strict)
qed

lemma mantissa_bound: "\<bar>round_half_even (x / pow2 (quantum_exp x))\<bar> \<le> 2 ^ 53"
proof -
  have "\<bar>x\<bar> / pow2 (quantum_exp x) < 2 ^ 53"
    using scaled_less [of x] by (simp add: field_simps)
  then have b: "x / pow2 (quantum_exp x) \<le> of_int (2 ^ 53)" "of_int (- (2 ^ 53)) \<le> x / pow2 (quantum_exp x)"
    by (simp_all add: abs_if field_simps split: if_splits)
  show ?thesis
    using round_half_even_le [OF b(1)] round_half_even_ge [OF b(2)] by simp
qed

lemma round_real_idem [simp]: "round_real (round_real x) = round_real x"
  unfolding round_real_def [of x]
  by (rule round_real_grid [OF mantissa_bound quantum_exp_ge])

lemma round_real_nonneg: "0 \<le> x \<Longrightarrow> 0 \<le> round_real x"
  unfolding round_real_def
  by (intro mult_nonneg_nonneg) (simp_all add: round_half_even_ge)

lemma round_real_nonpos: "x \<le> 0 \<Longrightarrow> round_real x \<le> 0"
  using round_real_nonneg [of "- x"] by (simp add: round_real_neg)

lemma round_real_le:
  assumes y: "round_real y = y" and xy: "x \<le> y"
  shows "round_real x \<le> y"
proof -
  define qx where "qx = quantum_exp x"
  define qy where "qy = quantum_exp y"
  define ny where "ny = round_half_even (y / pow2 qy)"
  have yg: "y = of_int ny * pow2 qy" using y by (simp add: round_real_def ny_def qy_def)
  have same: "round_real x \<le> y" if "qx \<le> qy"
  proof -
    have "pow2 qy = pow2 ((qy - qx) + qx)" by simp
    also have "\<dots> = of_int (2 ^ nat (qy - qx)) * pow2 qx"
      using that by (simp only: pow2_add) (simp add: pow2_nat)
    finally have yx: "y = of_int (ny * 2 ^ nat (qy - qx)) * pow2 qx" using yg by simp
    then have "y / pow2 qx = of_int (ny * 2 ^ nat (qy - qx))" by (simp add: field_simps)
    moreover have "x / pow2 qx \<le> y / pow2 qx" using xy by (simp add: divide_right_mono)
    ultimately have "round_half_even (x / pow2 qx) \<le> ny * 2 ^ nat (qy - qx)"
      by (intro round_half_even_le) simp
    then have "of_int (round_half_even (x / pow2 qx)) * pow2 qx \<le> of_int (ny * 2 ^ nat (qy - qx)) * pow2 qx"
      by (intro mult_right_mono) (simp_all only: of_int_le_iff pow2_nonneg)
    then show ?thesis using yx by (simp add: round_real_def qx_def)
  qed
  consider "x \<le> 0 \<and> 0 \<le> y" | "0 < x" | "y < 0" by linarith
  then show ?thesis
  proof cases
    case 1
    then show ?thesis using round_real_nonpos [of x] by linarith
  next
    case 2
    then have "x \<noteq> 0" "\<bar>x\<bar> \<le> \<bar>y\<bar>" using xy by simp_all
    then have "qx \<le> qy" unfolding qx_def qy_def by (rule quantum_exp_mono)
    then show ?thesis by (rule same)
  next
    case 3
    then have y0: "y \<noteq> 0" and x0: "x \<noteq> 0" and ab: "\<bar>y\<bar> \<le> \<bar>x\<bar>" using xy by simp_all
    show ?thesis
    proof (cases "qx \<le> qy")
      case True
      then show ?thesis by (rule same)
    next
      case False
      then have lt: "qy < qx" by simp
      have "- 1074 \<le> qy" unfolding qy_def by (rule quantum_exp_ge)
      then have big: "- 1074 < quantum_exp x" using lt by (simp add: qx_def)
      define kx where "kx = \<lfloor>log 2 \<bar>x\<bar>\<rfloor>"
      define ky where "ky = \<lfloor>log 2 \<bar>y\<bar>\<rfloor>"
      have qxk: "qx = kx - 52" using big by (simp add: qx_def quantum_exp_def kx_def max_def split: if_splits)
      have "ky - 52 \<le> qy" by (simp add: qy_def quantum_exp_def ky_def)
      then have k: "ky + 1 \<le> kx" using lt qxk by simp
      have "\<bar>y\<bar> < pow2 (ky + 1)" unfolding ky_def by (rule floor_log2_bounds [OF y0])
      also have "\<dots> \<le> pow2 kx" using k by simp
      finally have ylt: "- pow2 kx < y" using 3 by simp
      have "2 ^ 52 * pow2 qx \<le> \<bar>x\<bar>" using scaled_ge [OF x0 big] by (simp add: qx_def)
      then have "x / pow2 qx \<le> of_int (- (2 ^ 52))" using 3 xy by (simp add: field_simps)
      then have "round_half_even (x / pow2 qx) \<le> - (2 ^ 52)" by (rule round_half_even_le)
      then have "of_int (round_half_even (x / pow2 qx)) * pow2 qx \<le> of_int (- (2 ^ 52)) * pow2 qx"
        by (intro mult_right_mono) (simp_all only: of_int_le_iff pow2_nonneg)
      also have "\<dots> = - (pow2 (52 + qx))" by (simp add: pow2_add pow2_numeral)
      also have "\<dots> = - pow2 kx" by (simp add: qxk)
      finally show ?thesis using ylt by (simp add: round_real_def qx_def)
    qed
  qed
qed

lemma round_real_ge:
  assumes y: "round_real y = y" and xy: "y \<le> x"
  shows "y \<le> round_real x"
proof -
  have "round_real (- y) = - y" using y by (simp add: round_real_neg)
  moreover have "- x \<le> - y" using xy by simp
  ultimately have "round_real (- x) \<le> - y" by (rule round_real_le)
  then show ?thesis by (simp add: round_real_neg)
qed

lemma round_real_underflow:
  assumes "\<bar>x\<bar> \<le> pow2 (- 1075)"
  shows "round_real x = 0"
proof (cases "x = 0")
  case True
  then show ?thesis by simp
next
  case False
  have "\<bar>x\<bar> < pow2 (- 1074)" using assms pow2_less_iff [of "- 1075" "- 1074"] by linarith
  moreover have "pow2 \<lfloor>log 2 \<bar>x\<bar>\<rfloor> \<le> \<bar>x\<bar>" by (rule floor_log2_bounds [OF False])
  ultimately have "pow2 \<lfloor>log 2 \<bar>x\<bar>\<rfloor> < pow2 (- 1074)" by linarith
  then have "\<lfloor>log 2 \<bar>x\<bar>\<rfloor> < - 1074" by (simp only: pow2_less_iff)
  then have q: "quantum_exp x = - 1074" unfolding quantum_exp_def by linarith
  have "pow2 (- 1074) = pow2 (1 + - 1075)" by simp
  also have "\<dots> = 2 * pow2 (- 1075)" by (simp only: pow2_add) (simp add: pow2_def)
  finally have "\<bar>x\<bar> / pow2 (- 1074) \<le> 1 / 2" using assms by (simp add: field_simps)
  then have "\<bar>x / pow2 (- 1074)\<bar> \<le> 1 / 2" by simp
  then have "round_half_even (x / pow2 (- 1074)) = 0" by (rule round_half_even_small)
  then show ?thesis by (simp add: round_real_def q)
qed

lemma is_double_round: "\<bar>round_real x\<bar> < pow2 1024 \<Longrightarrow> is_double (round_real x)"
  by (simp add: is_double_def)

lemma is_double_grid:
  assumes "\<bar>m\<bar> \<le> 2 ^ 53" and "- 1074 \<le> e" and "e \<le> 970"
  shows "is_double (of_int m * pow2 e)"
proof -
  have "\<bar>of_int m * pow2 e\<bar> = of_int \<bar>m\<bar> * pow2 e" by (simp add: abs_mult)
  also have "\<dots> \<le> 2 ^ 53 * pow2 970"
    using assms by (intro mult_mono) (simp_all flip: of_int_abs add: of_int_le_numeral_power_cancel_iff)
  also have "\<dots> = pow2 (53 + 970)" by (simp only: pow2_add pow2_numeral)
  also have "\<dots> < pow2 1024" by simp
  finally show ?thesis using round_real_grid [OF assms(1,2)] by (simp add: is_double_def)
qed

lemma is_double_of_int: "\<bar>n\<bar> \<le> 2 ^ 53 \<Longrightarrow> is_double (of_int n)"
  using is_double_grid [of n 0] by simp

lemma is_double_0 [simp]: "is_double 0"
  using is_double_of_int [of 0] by simp

lemma is_double_1 [simp]: "is_double 1"
  using is_double_of_int [of 1] by simp

lemma is_double_neg [simp]: "is_double (- x) = is_double x"
  by (auto simp: is_double_def round_real_neg)

lemma is_double_numeral [simp]: "(numeral k :: int) \<le> 2 ^ 53 \<Longrightarrow> is_double (numeral k)"
  using is_double_of_int [of "numeral k"] by simp

lemma is_double_half [simp]: "is_double (1 / 2)"
  using is_double_grid [of 1 "- 1"] by (simp add: pow2_def)

lemma is_double_Rep [simp]: "is_double (Rep_double d)"
  using Rep_double [of d] by simp

lemma Rep_Abs [simp]: "is_double x \<Longrightarrow> Rep_double (Abs_double x) = x"
  by (simp add: Abs_double_inverse)

lemma fl_double: "is_double x \<Longrightarrow> fl x = Fin (Abs_double x)"
  by (auto simp: fl_def is_double_def Let_def)

lemma fl_Rep [simp]: "fl (Rep_double d) = Fin d"
  by (simp add: fl_double Rep_double_inverse)

lemma dbl_cases [case_names Fin PInf MInf NaN]:
  obtains (Fin) x where "a = fl x" and "is_double x" | (PInf) "a = PInf" | (MInf) "a = MInf" | (NaN) "a = NaN"
  by (cases a) (metis fl_Rep is_double_Rep, simp_all)

lemma fl_cases [case_names Fin PInf MInf]:
  obtains (Fin) y where "fl x = fl y" and "is_double y" and "round_real x = y"
  | (PInf) "fl x = PInf" and "pow2 1024 \<le> round_real x"
  | (MInf) "fl x = MInf" and "round_real x \<le> - pow2 1024"
proof (cases "pow2 1024 \<le> round_real x")
  case True
  then show ?thesis by (intro PInf) (simp_all add: fl_def)
next
  case False
  show ?thesis
  proof (cases "round_real x \<le> - pow2 1024")
    case True
    then show ?thesis using False by (intro MInf) (simp_all add: fl_def)
  next
    case F2: False
    then have d: "is_double (round_real x)" using False by (intro is_double_round) simp
    have "fl x = Fin (Abs_double (round_real x))" using False F2 by (simp add: fl_def)
    then have "fl x = fl (round_real x)" using d by (simp add: fl_double)
    then show ?thesis using d by (intro Fin [of "round_real x"]) simp_all
  qed
qed

lemma fl_neq_NaN [simp]: "fl x \<noteq> NaN" "NaN \<noteq> fl x"
  by (cases x rule: fl_cases; simp add: fl_double)+

lemma fl_eq_iff [simp]: "is_double a \<Longrightarrow> is_double b \<Longrightarrow> fl a = fl b \<longleftrightarrow> a = b"
  by (metis Rep_Abs dbl.inject fl_double)

lemma fl_neq_inf [simp]:
  "is_double a \<Longrightarrow> fl a \<noteq> PInf" "is_double a \<Longrightarrow> fl a \<noteq> MInf"
  "is_double a \<Longrightarrow> PInf \<noteq> fl a" "is_double a \<Longrightarrow> MInf \<noteq> fl a"
  by (simp_all add: fl_double)

lemma is_finite_fl [simp]: "is_double a \<Longrightarrow> is_finite (fl a)"
  by (simp add: fl_double)

lemma is_finite_iff: "is_finite a \<longleftrightarrow> (\<exists>x. is_double x \<and> a = fl x)"
  by (cases a rule: dbl_cases) auto

lemma plus_fl [simp]: "is_double a \<Longrightarrow> is_double b \<Longrightarrow> fl a + fl b = fl (a + b)"
  by (simp add: fl_double)

lemma uminus_fl [simp]: "is_double a \<Longrightarrow> - fl a = fl (- a)"
  by (simp add: fl_double)

lemma minus_fl [simp]: "is_double a \<Longrightarrow> is_double b \<Longrightarrow> fl a - fl b = fl (a - b)"
  by (simp add: minus_dbl_def)

lemma times_fl [simp]: "is_double a \<Longrightarrow> is_double b \<Longrightarrow> fl a * fl b = fl (a * b)"
  by (simp add: fl_double)

lemma divide_fl [simp]:
  "is_double a \<Longrightarrow> is_double b \<Longrightarrow> b \<noteq> 0 \<Longrightarrow> fl a / fl b = fl (a / b)"
  by (simp add: fl_double)

lemma divide_fl_zero:
  "is_double a \<Longrightarrow> fl a / fl 0 = (if a = 0 then NaN else if 0 < a then PInf else MInf)"
  by (simp add: fl_double)

lemma abs_fl [simp]: "is_double a \<Longrightarrow> \<bar>fl a\<bar> = fl \<bar>a\<bar>"
  by (simp add: fl_double)

lemma less_fl [simp]: "is_double a \<Longrightarrow> is_double b \<Longrightarrow> fl a < fl b \<longleftrightarrow> a < b"
  by (simp add: fl_double)

lemma less_eq_fl [simp]: "is_double a \<Longrightarrow> is_double b \<Longrightarrow> fl a \<le> fl b \<longleftrightarrow> a \<le> b"
  by (simp add: fl_double)

lemma exp_fl [simp]: "is_double a \<Longrightarrow> exp_dbl (fl a) = fl (exp a)"
  by (simp add: fl_double)

lemma sqrt_fl [simp]: "is_double a \<Longrightarrow> sqrt_dbl (fl a) = (if a < 0 then NaN else fl (sqrt a))"
  by (simp add: fl_double)

lemma times_fl_inf [simp]:
  "is_double a \<Longrightarrow> fl a * PInf = (if a = 0 then NaN else if 0 < a then PInf else MInf)"
  "is_double a \<Longrightarrow> fl a * MInf = (if a = 0 then NaN else if 0 < a then MInf else PInf)"
  "is_double a \<Longrightarrow> PInf * fl a = (if a = 0 then NaN else if 0 < a then PInf else MInf)"
  "is_double a \<Longrightarrow> MInf * fl a = (if a = 0 then NaN else if 0 < a then MInf else PInf)"
  by (simp_all add: fl_double)

lemma plus_fl_inf [simp]:
  "is_double a \<Longrightarrow> fl a + PInf = PInf" "is_double a \<Longrightarrow> fl a + MInf = MInf"
  "is_double a \<Longrightarrow> PInf + fl a = PInf" "is_double a \<Longrightarrow> MInf + fl a = MInf"
  by (simp_all add: fl_double)

lemma less_fl_inf [simp]:
  "is_double a \<Longrightarrow> fl a < PInf" "is_double a \<Longrightarrow> \<not> fl a < MInf"
  "is_double a \<Longrightarrow> \<not> PInf < fl a" "is_double a \<Longrightarrow> MInf < fl a"
  "is_double a \<Longrightarrow> fl a \<le> PInf" "is_double a \<Longrightarrow> \<not> fl a \<le> MInf"
  "is_double a \<Longrightarrow> \<not> PInf \<le> fl a" "is_double a \<Longrightarrow> MInf \<le> fl a"
  by (simp_all add: fl_double)

lemma divide_fl_inf [simp]:
  "is_double a \<Longrightarrow> fl a / PInf = fl 0" "is_double a \<Longrightarrow> fl a / MInf = fl 0"
  "is_double a \<Longrightarrow> PInf / fl a = (if 0 \<le> a then PInf else MInf)"
  "is_double a \<Longrightarrow> MInf / fl a = (if 0 \<le> a then MInf else PInf)"
  by (simp_all add: fl_double)

text \<open>sign of a rounded result\<close>

lemma fl_nonneg: "0 \<le> x \<Longrightarrow> fl 0 \<le> fl x"
proof (cases x rule: fl_cases)
  case MInf
  assume "0 \<le> x"
  then have "0 \<le> round_real x" by (rule round_real_nonneg)
  then show ?thesis using MInf(2) pow2_pos [of 1024] by linarith
qed (use round_real_nonneg [of x] in simp_all)

lemma fl_nonpos: "x \<le> 0 \<Longrightarrow> fl x \<le> fl 0"
proof (cases x rule: fl_cases)
  case PInf
  assume "x \<le> 0"
  then have "round_real x \<le> 0" by (rule round_real_nonpos)
  then show ?thesis using PInf(2) pow2_pos [of 1024] by linarith
qed (use round_real_nonpos [of x] in simp_all)

lemma fl_le_double: "is_double y \<Longrightarrow> x \<le> y \<Longrightarrow> fl x \<le> fl y"
proof -
  assume y: "is_double y" and xy: "x \<le> y"
  then have "round_real x \<le> y" by (intro round_real_le) (simp_all add: is_double_def)
  moreover have "y < pow2 1024" using y unfolding is_double_def by linarith
  ultimately show ?thesis using y by (cases x rule: fl_cases) simp_all
qed

lemma fl_ge_double: "is_double y \<Longrightarrow> y \<le> x \<Longrightarrow> fl y \<le> fl x"
proof -
  assume y: "is_double y" and xy: "y \<le> x"
  then have "y \<le> round_real x" by (intro round_real_ge) (simp_all add: is_double_def)
  moreover have "- pow2 1024 < y" using y unfolding is_double_def by linarith
  ultimately show ?thesis using y by (cases x rule: fl_cases) simp_all
qed

lemma fl_overflow: "pow2 1024 \<le> x \<Longrightarrow> fl x = PInf"
proof -
  assume x: "pow2 1024 \<le> x"
  have "round_real (of_int 1 * pow2 1024) = of_int 1 * pow2 1024"
    by (rule round_real_grid) simp_all
  then have "round_real (pow2 1024) = pow2 1024" by simp
  then have "pow2 1024 \<le> round_real x" using x by (rule round_real_ge)
  then show ?thesis by (simp add: fl_def)
qed

lemma fl_underflow: "\<bar>x\<bar> \<le> pow2 (- 1075) \<Longrightarrow> fl x = fl 0"
  using round_real_underflow [of x] by (simp add: fl_def)

text \<open>NaN operands\<close>

lemma nan_less [simp]:
  "\<not> a < NaN" "\<not> NaN < a" "\<not> a \<le> NaN" "\<not> NaN \<le> a"
  by (cases a; simp)+

lemma nan_arith [simp]:
  "a + NaN = NaN" "NaN + a = NaN" "a * NaN = NaN" "NaN * a = NaN"
  "a / NaN = NaN" "NaN / a = NaN" "a - NaN = NaN" "NaN - a = NaN"
  by (cases a; simp add: minus_dbl_def)+

text \<open>Overflow and underflow of the exponential\<close>

lemma two_pow_le_exp: "(2::real) ^ n \<le> exp (of_nat n)"
proof -
  have "(2::real) \<le> exp 1" using exp_ge_add_one_self [of 1] by simp
  then have "(2::real) ^ n \<le> exp 1 ^ n" by (intro power_mono) simp_all
  also have "\<dots> = exp (of_nat n * 1)" by (simp only: exp_of_nat_mult)
  finally show ?thesis by simp
qed

lemma exp_2000_overflow: "fl (exp 2000) = PInf"
proof -
  have "pow2 1024 \<le> pow2 2000" by simp
  also have "\<dots> = 2 ^ 2000" by (simp only: pow2_numeral)
  also have "\<dots> \<le> exp (of_nat 2000)" by (rule two_pow_le_exp)
  finally have "pow2 1024 \<le> exp 2000" by simp
  then show ?thesis by (rule fl_overflow)
qed

lemma exp_2000_underflow: "fl (exp (- 2000)) = fl 0"
proof -
  have "(2::real) ^ 2000 \<le> exp (of_nat 2000)" by (rule two_pow_le_exp)
  then have "(2::real) ^ 2000 \<le> exp 2000" by simp
  then have "inverse (exp 2000) \<le> inverse ((2::real) ^ 2000)" by (intro le_imp_inverse_le) simp_all
  then have "exp (- 2000) \<le> 1 / (2::real) ^ 2000" by (simp only: exp_minus inverse_eq_divide)
  also have "\<dots> = pow2 (- 2000)" by (simp only: pow2_neg_numeral)
  also have "\<dots> \<le> pow2 (- 1075)" by simp
  finally have "\<bar>exp (- 2000 :: real)\<bar> \<le> pow2 (- 1075)" by simp
  then show ?thesis by (rule fl_underflow)
qed

text \<open>Exact operations\<close>

lemma times_one_dbl: "a * fl 1 = a"
  by (cases a rule: dbl_cases) simp_all

lemma add_zero_dbl: "a + (0::dbl) = a"
  by (cases a rule: dbl_cases) (simp_all add: zero_dbl_def)

lemma zero_add_dbl: "(0::dbl) + a = a"
  by (cases a rule: dbl_cases) (simp_all add: zero_dbl_def)

lemma zero_times_finite_dbl: "is_finite x \<Longrightarrow> (0::dbl) * x = 0"
  by (cases x rule: dbl_cases) (simp_all add: zero_dbl_def)

lemma std_max_zero: "\<not> 0 < std_max 0 x \<Longrightarrow> std_max 0 x = 0"
  by (simp add: std_max_def split: if_splits)

section \<open>Properties of the arena allocator\<close>

lemma and_not_mask_diff:
  fixes w :: "64 word"
  shows "w AND NOT (mask k) = w - (w AND mask k)"
  by (metis (no_types, lifting) and.commute and.right_idem
    bit.conj_xor_distrib2 bit.xor_compl_right
    diff_0_right disjunctive_and_not_eq_xor disjunctive_diff_eq_and_not
    word_and_not word_bw_lcs(1) word_not_not)

lemma unat_and_mask_mod:
  fixes w :: "64 word"
  shows "unat (w AND mask k) = unat w mod 2 ^ k"
proof -
  have "w AND mask k = take_bit k w" by (simp only: take_bit_eq_mask)
  moreover have "unat (take_bit k w) = take_bit k (unat w)" by (rule unsigned_take_bit_eq)
  moreover have "take_bit k (unat w) = unat w mod 2 ^ k" by (rule take_bit_eq_mod)
  ultimately show ?thesis by (simp only:)
qed

lemma unat_mask_64:
  assumes k: "k < 64"
  shows "unat (mask k :: 64 word) = 2 ^ k - 1"
proof -
  have lt: "(2::nat) ^ k < 2 ^ LENGTH(64)"
    using k by (simp only: len_bit0 len_num1 power_strict_increasing_iff)
  have "(mask k :: 64 word) = word_of_nat (2 ^ k - 1)"
    by (simp add: mask_eq_exp_minus_1 of_nat_diff)
  then show ?thesis using lt by (intro of_nat_inverse) (simp_all only: less_imp_diff_less)
qed

lemma unat_offset_plus:
  fixes off :: "64 word"
  assumes k: "k < 64" and nowrap: "unat off + 2 ^ k - 1 < 2 ^ 64"
  shows "unat (off + 2 ^ k - 1) = unat off + 2 ^ k - 1"
proof -
  have e: "off + 2 ^ k - 1 = off + mask k" by (simp add: mask_eq_decr_exp)
  have "unat (off + mask k) = unat off + unat (mask k :: 64 word)"
    using nowrap k by (subst unat_add_lem [THEN iffD1]) (simp_all add: unat_mask_64)
  then show ?thesis using k unfolding e by (simp add: unat_mask_64)
qed

lemma unat_align_up:
  fixes off :: "64 word"
  assumes k: "k < 64" and nowrap: "unat off + 2 ^ k - 1 < 2 ^ 64"
  shows "unat ((off + 2 ^ k - 1) AND NOT (2 ^ k - 1)) = round_up_to (unat off) (2 ^ k)"
proof -
  let ?w = "off + 2 ^ k - 1"
  have m: "(2 ^ k - 1 :: 64 word) = mask k" by (simp add: mask_eq_decr_exp)
  have uw: "unat ?w = unat off + 2 ^ k - 1" using k nowrap by (rule unat_offset_plus)
  have le: "?w AND mask k \<le> ?w" by (rule word_and_le2)
  have "unat (?w AND NOT (mask k)) = unat ?w - unat ?w mod 2 ^ k"
    using le by (simp only: and_not_mask_diff unat_sub unat_and_mask_mod)
  also have "\<dots> = round_up_to (unat off) (2 ^ k)"
    unfolding uw round_up_to_def by (simp only: minus_mod_eq_div_mult)
  finally show ?thesis by (simp only: m)
qed

lemma round_up_to_props:
  assumes "0 < al"
  shows "al dvd round_up_to off al"
    and "off \<le> round_up_to off al"
    and "round_up_to off al < off + al"
proof -
  let ?n = "off + al - 1"
  have e: "round_up_to off al = ?n - ?n mod al"
    by (simp only: round_up_to_def minus_mod_eq_div_mult)
  have m: "?n mod al < al" using assms by simp
  show "al dvd round_up_to off al" by (simp add: round_up_to_def)
  show "off \<le> round_up_to off al" using m assms unfolding e by linarith
  show "round_up_to off al < off + al" using assms unfolding e by linarith
qed

lemma allocate_pow2_eq:
  assumes k: "k < 64" and nowrap: "unat (offset a) + 2 ^ k - 1 < 2 ^ 64"
    and nowrap2: "round_up_to (unat (offset a)) (2 ^ k) + unat sz < 2 ^ 64"
  shows "allocate a sz (2 ^ k) =
     (if round_up_to (unat (offset a)) (2 ^ k) + unat sz \<le> unat (memory_size a)
      then (Inr (word_of_nat (round_up_to (unat (offset a)) (2 ^ k))),
            a\<lparr>offset := word_of_nat (round_up_to (unat (offset a)) (2 ^ k) + unat sz)\<rparr>)
      else (Inl AllocationExhausted, a))"
proof -
  define ao where "ao = (offset a + 2 ^ k - 1) AND NOT (2 ^ k - 1)"
  define r where "r = round_up_to (unat (offset a)) (2 ^ k)"
  have u: "unat ao = r" unfolding ao_def r_def using k nowrap by (rule unat_align_up)
  have s: "unat (ao + sz) = r + unat sz"
    using nowrap2 unfolding u[symmetric] r_def[symmetric]
    by (simp add: unat_add_lem [THEN iffD1])
  have w: "word_of_nat r = ao"
    unfolding u[symmetric] by simp
  have w2: "word_of_nat (r + unat sz) = ao + sz"
    unfolding u[symmetric] by simp
  have c: "(ao + sz > memory_size a) = (\<not> r + unat sz \<le> unat (memory_size a))"
    by (simp add: word_less_nat_alt s not_le)
  have "allocate a sz (2 ^ k) =
     (if ao + sz > memory_size a then (Inl AllocationExhausted, a)
      else (Inr ao, a\<lparr>offset := ao + sz\<rparr>))"
    by (simp only: allocate_def Let_def ao_def)
  then show ?thesis
    unfolding r_def[symmetric] w w2 c by simp
qed

text \<open>
  Claim C9, as stated, at the request \<open>allocate(0, 3)\<close> on an arena of 16 bytes with
  offset 1: the offset rounded up to the alignment 3 is 3 and the region fits, so the
  claim has the region start at 3 and the offset advanced to 3. The bit mask of the code
  yields the region at offset 1 and leaves the offset at 1.
\<close>

theorem allocate_alignment_three_counterexample:
  "round_up_to (unat (offset \<lparr>memory_size = 16, offset = 1\<rparr>)) 3 + unat (0 :: 64 word)
      \<le> unat (memory_size \<lparr>memory_size = 16, offset = 1\<rparr>)
   \<and> allocate \<lparr>memory_size = 16, offset = 1\<rparr> 0 3
      \<noteq> (Inr (word_of_nat (round_up_to (unat (offset \<lparr>memory_size = 16, offset = 1\<rparr>)) 3)),
          \<lparr>memory_size = 16,
           offset = word_of_nat (round_up_to (unat (offset \<lparr>memory_size = 16, offset = 1\<rparr>)) 3
                                 + unat (0 :: 64 word))\<rparr>)"
  by (simp add: allocate_def round_up_to_def)

text \<open>
  Claim C9, amended: for every arena state and every request whose alignment is a power
  of two \<open>2 ^ k\<close>, provided neither \<open>offset + alignment - 1\<close> nor the aligned offset plus
  \<open>size\<close> exceeds the range of \<^verbatim>\<open>size_t\<close>, the aligned offset is the current offset rounded
  up to the next multiple of the alignment; if the aligned offset plus \<open>size\<close> does not
  exceed the capacity, \<open>allocate\<close> returns the region at the aligned offset and advances
  the offset past it, and otherwise it fails with AllocationExhausted and the arena is
  unchanged.
\<close>

theorem allocate_power_of_two:
  assumes "k < 64"
    and "unat (offset a) + 2 ^ k - 1 < 2 ^ 64"
    and "round_up_to (unat (offset a)) (2 ^ k) + unat sz < 2 ^ 64"
  shows "2 ^ k dvd round_up_to (unat (offset a)) (2 ^ k)
    \<and> unat (offset a) \<le> round_up_to (unat (offset a)) (2 ^ k)
    \<and> round_up_to (unat (offset a)) (2 ^ k) < unat (offset a) + 2 ^ k
    \<and> allocate a sz (2 ^ k) =
       (if round_up_to (unat (offset a)) (2 ^ k) + unat sz \<le> unat (memory_size a)
        then (Inr (word_of_nat (round_up_to (unat (offset a)) (2 ^ k))),
              a\<lparr>offset := word_of_nat (round_up_to (unat (offset a)) (2 ^ k) + unat sz)\<rparr>)
        else (Inl AllocationExhausted, a))"
  using allocate_pow2_eq [OF assms] round_up_to_props [of "2 ^ k" "unat (offset a)"]
  by simp

theorem allocate_power_of_two_witness:
  "allocate \<lparr>memory_size = 64, offset = 5\<rparr> 16 (2 ^ 3)
     = (Inr 8, \<lparr>memory_size = 64, offset = 24\<rparr>)
   \<and> allocate \<lparr>memory_size = 64, offset = 5\<rparr> 57 (2 ^ 3)
     = (Inl AllocationExhausted, \<lparr>memory_size = 64, offset = 5\<rparr>)"
  using allocate_power_of_two [of 3 "\<lparr>memory_size = 64, offset = 5\<rparr>" 16]
    allocate_power_of_two [of 3 "\<lparr>memory_size = 64, offset = 5\<rparr>" 57]
  by (simp add: round_up_to_def)

section \<open>The three layouts are lawful\<close>

lemma set_update_rows:
  assumes "\<forall>row\<in>set tb. length row = c" "i < length tb"
  shows "\<forall>row\<in>set (tb[i := (tb ! i)[j := v]]). length row = c"
proof
  fix row assume "row \<in> set (tb[i := (tb ! i)[j := v]])"
  then have "row \<in> insert ((tb ! i)[j := v]) (set tb)" using set_update_subset_insert by fast
  then show "length row = c" using assms by auto
qed

lemma lawful_path_major: "lawful path_major (shape_path_major N M) N M"
  unfolding lawful_def
proof (intro conjI allI impI)
  show "shape_path_major N M (create path_major N (Suc M))"
    by (simp add: shape_path_major_def path_major_def)
  show "\<And>i j. i < N \<Longrightarrow> j \<le> M \<Longrightarrow> rd path_major (create path_major N (Suc M)) i j = 0"
    by (simp add: path_major_def zero_dbl_def del: replicate.simps)
next
  fix tb i j v
  assume ok: "shape_path_major N M tb" and i: "i < N" and j: "j \<le> M"
  show "shape_path_major N M (wr path_major tb i j v)"
    using ok i set_update_rows [of tb "Suc M" i j v]
    by (simp add: shape_path_major_def path_major_def)
  fix i' j' assume "i' < N" "j' \<le> M"
  then show "rd path_major (wr path_major tb i j v) i' j' = (if i' = i \<and> j' = j then v else rd path_major tb i' j')"
    using ok i j by (auto simp: shape_path_major_def path_major_def nth_list_update)
qed

lemma lawful_time_major: "lawful time_major (shape_time_major N M) N M"
  unfolding lawful_def
proof (intro conjI allI impI)
  show "shape_time_major N M (create time_major N (Suc M))"
    by (simp add: shape_time_major_def time_major_def)
  show "\<And>i j. i < N \<Longrightarrow> j \<le> M \<Longrightarrow> rd time_major (create time_major N (Suc M)) i j = 0"
    by (simp add: time_major_def zero_dbl_def del: replicate.simps)
next
  fix tb i j v
  assume ok: "shape_time_major N M tb" and i: "i < N" and j: "j \<le> M"
  show "shape_time_major N M (wr time_major tb i j v)"
    using ok j set_update_rows [of tb N j i v]
    by (simp add: shape_time_major_def time_major_def)
  fix i' j' assume "i' < N" "j' \<le> M"
  then show "rd time_major (wr time_major tb i j v) i' j' = (if i' = i \<and> j' = j then v else rd time_major tb i' j')"
    using ok i j by (auto simp: shape_time_major_def time_major_def nth_list_update)
qed

lemma flat_index_less: "i < N \<Longrightarrow> j \<le> M \<Longrightarrow> i * Suc M + j < N * Suc M"
proof -
  assume i: "i < N" and j: "j \<le> M"
  have "i * Suc M + j < i * Suc M + Suc M" using j by simp
  also have "\<dots> = Suc i * Suc M" by simp
  also have "\<dots> \<le> N * Suc M" using i by (intro mult_le_mono1) simp
  finally show ?thesis .
qed

lemma flat_index_inj:
  assumes "j \<le> M" "j' \<le> M" "i * Suc M + j = i' * Suc M + j'"
  shows "i = i' \<and> j = j'"
proof -
  have "(i * Suc M + j) mod Suc M = j" "(i' * Suc M + j') mod Suc M = j'"
    using assms(1,2) by (simp_all del: mult_Suc_right)
  then have j: "j = j'" using assms(3) by (simp only:)
  then have "i * Suc M = i' * Suc M" using assms(3) by (simp del: mult_Suc_right)
  then show ?thesis using j by (simp del: mult_Suc_right)
qed

lemma lawful_flat: "lawful (flat M) (shape_flat N M) N M"
  unfolding lawful_def
proof (intro conjI allI impI)
  show "shape_flat N M (create (flat M) N (Suc M))"
    by (simp add: shape_flat_def flat_def del: mult_Suc_right)
  show "\<And>i j. i < N \<Longrightarrow> j \<le> M \<Longrightarrow> rd (flat M) (create (flat M) N (Suc M)) i j = 0"
    using flat_index_less [of _ N _ M] by (simp add: flat_def del: mult_Suc_right)
next
  fix tb i j v
  assume ok: "shape_flat N M tb" and i: "i < N" and j: "j \<le> M"
  show "shape_flat N M (wr (flat M) tb i j v)"
    using ok by (simp add: shape_flat_def flat_def del: mult_Suc_right)
  fix i' j' assume i': "i' < N" and j': "j' \<le> M"
  have len: "i * Suc M + j < length tb"
    using ok flat_index_less [OF i j] by (simp add: shape_flat_def)
  have eq: "(i' * Suc M + j' = i * Suc M + j) = (i' = i \<and> j' = j)"
    using flat_index_inj [OF j' j, of i' i] by auto
  show "rd (flat M) (wr (flat M) tb i j v) i' j' = (if i' = i \<and> j' = j then v else rd (flat M) tb i' j')"
    using len eq by (simp add: flat_def nth_list_update del: mult_Suc_right) metis
qed

section \<open>Loops of assignments\<close>

lemma lawful_ok_wr:
  "lawful L ok N M \<Longrightarrow> ok tb \<Longrightarrow> i < N \<Longrightarrow> j \<le> M \<Longrightarrow> ok (wr L tb i j v)"
  unfolding lawful_def by blast

lemma lawful_rd_wr:
  "lawful L ok N M \<Longrightarrow> ok tb \<Longrightarrow> i < N \<Longrightarrow> j \<le> M \<Longrightarrow> i' < N \<Longrightarrow> j' \<le> M \<Longrightarrow>
   rd L (wr L tb i j v) i' j' = (if i' = i \<and> j' = j then v else rd L tb i' j')"
  unfolding lawful_def by blast

lemma lawful_ok_create: "lawful L ok N M \<Longrightarrow> ok (create L N (Suc M))"
  unfolding lawful_def by blast

lemma lawful_rd_create: "lawful L ok N M \<Longrightarrow> i < N \<Longrightarrow> j \<le> M \<Longrightarrow> rd L (create L N (Suc M)) i j = 0"
  unfolding lawful_def by blast

lemma fold_invariant:
  "(\<And>x s. x \<in> set xs \<Longrightarrow> P s \<Longrightarrow> P (f x s)) \<Longrightarrow> P s \<Longrightarrow> P (fold f xs s)"
  by (induction xs arbitrary: s) simp_all

lemma fold_writes_aux:
  assumes law: "lawful L ok N M" and ok: "ok tb"
    and cells: "\<forall>c\<in>set cs. row c < N \<and> col c \<le> M"
  shows "ok (fold (\<lambda>c cf. wr L cf (row c) (col c) (g c)) cs tb)
    \<and> (\<forall>i<N. \<forall>j\<le>M.
          ((\<forall>c\<in>set cs. \<not> (row c = i \<and> col c = j)) \<longrightarrow>
             rd L (fold (\<lambda>c cf. wr L cf (row c) (col c) (g c)) cs tb) i j = rd L tb i j)
        \<and> (\<forall>v. (\<exists>c\<in>set cs. row c = i \<and> col c = j) \<and> (\<forall>c\<in>set cs. row c = i \<and> col c = j \<longrightarrow> g c = v) \<longrightarrow>
             rd L (fold (\<lambda>c cf. wr L cf (row c) (col c) (g c)) cs tb) i j = v))"
  using cells
proof (induction cs rule: rev_induct)
  case Nil
  then show ?case using ok by simp
next
  case (snoc c cs)
  let ?res = "fold (\<lambda>c cf. wr L cf (row c) (col c) (g c)) cs tb"
  have ih: "ok ?res" 
    "\<And>i j. i < N \<Longrightarrow> j \<le> M \<Longrightarrow> (\<forall>c\<in>set cs. \<not> (row c = i \<and> col c = j)) \<Longrightarrow> rd L ?res i j = rd L tb i j"
    "\<And>i j v. i < N \<Longrightarrow> j \<le> M \<Longrightarrow> (\<exists>c\<in>set cs. row c = i \<and> col c = j) \<Longrightarrow>
        (\<forall>c\<in>set cs. row c = i \<and> col c = j \<longrightarrow> g c = v) \<Longrightarrow> rd L ?res i j = v"
    using snoc by auto
  have c: "row c < N" "col c \<le> M" using snoc.prems by auto
  have rw: "\<And>i j. i < N \<Longrightarrow> j \<le> M \<Longrightarrow>
      rd L (wr L ?res (row c) (col c) (g c)) i j = (if i = row c \<and> j = col c then g c else rd L ?res i j)"
    using lawful_rd_wr [OF law ih(1) c] by simp
  show ?case
  proof (intro conjI allI impI)
    show "ok (fold (\<lambda>c cf. wr L cf (row c) (col c) (g c)) (cs @ [c]) tb)"
      using lawful_ok_wr [OF law ih(1) c] by simp
  next
    fix i j assume ij: "i < N" "j \<le> M"
      and no: "\<forall>c'\<in>set (cs @ [c]). \<not> (row c' = i \<and> col c' = j)"
    then show "rd L (fold (\<lambda>c cf. wr L cf (row c) (col c) (g c)) (cs @ [c]) tb) i j = rd L tb i j"
      using rw [OF ij] ih(2) [OF ij] by auto
  next
    fix i j v assume ij: "i < N" "j \<le> M"
      and yes: "(\<exists>c'\<in>set (cs @ [c]). row c' = i \<and> col c' = j) \<and>
                (\<forall>c'\<in>set (cs @ [c]). row c' = i \<and> col c' = j \<longrightarrow> g c' = v)"
    show "rd L (fold (\<lambda>c cf. wr L cf (row c) (col c) (g c)) (cs @ [c]) tb) i j = v"
    proof (cases "i = row c \<and> j = col c")
      case True
      then show ?thesis using rw [OF ij] yes by auto
    next
      case False
      then have "\<exists>c'\<in>set cs. row c' = i \<and> col c' = j" using yes by auto
      moreover have "\<forall>c'\<in>set cs. row c' = i \<and> col c' = j \<longrightarrow> g c' = v" using yes by auto
      ultimately have "rd L ?res i j = v" using ih(3) [OF ij] by blast
      then show ?thesis using rw [OF ij] False by simp
    qed
  qed
qed

lemma fold_writes:
  assumes law: "lawful L ok N M" and ok: "ok tb"
    and cells: "\<And>c. c \<in> set cs \<Longrightarrow> row c < N \<and> col c \<le> M"
  shows "ok (fold (\<lambda>c cf. wr L cf (row c) (col c) (g c)) cs tb)"
    and "\<And>i j. i < N \<Longrightarrow> j \<le> M \<Longrightarrow> (\<And>c. c \<in> set cs \<Longrightarrow> \<not> (row c = i \<and> col c = j)) \<Longrightarrow>
           rd L (fold (\<lambda>c cf. wr L cf (row c) (col c) (g c)) cs tb) i j = rd L tb i j"
    and "\<And>i j c v. i < N \<Longrightarrow> j \<le> M \<Longrightarrow> c \<in> set cs \<Longrightarrow> row c = i \<Longrightarrow> col c = j \<Longrightarrow>
           (\<And>c'. c' \<in> set cs \<Longrightarrow> row c' = i \<Longrightarrow> col c' = j \<Longrightarrow> g c' = v) \<Longrightarrow>
           rd L (fold (\<lambda>c cf. wr L cf (row c) (col c) (g c)) cs tb) i j = v"
proof -
  have c: "\<forall>c\<in>set cs. row c < N \<and> col c \<le> M" using cells by blast
  note aux = fold_writes_aux [OF law ok c, of g]
  show "ok (fold (\<lambda>c cf. wr L cf (row c) (col c) (g c)) cs tb)" using aux by blast
  show "\<And>i j. i < N \<Longrightarrow> j \<le> M \<Longrightarrow> (\<And>c. c \<in> set cs \<Longrightarrow> \<not> (row c = i \<and> col c = j)) \<Longrightarrow>
           rd L (fold (\<lambda>c cf. wr L cf (row c) (col c) (g c)) cs tb) i j = rd L tb i j"
    using aux by blast
  show "\<And>i j c v. i < N \<Longrightarrow> j \<le> M \<Longrightarrow> c \<in> set cs \<Longrightarrow> row c = i \<Longrightarrow> col c = j \<Longrightarrow>
           (\<And>c'. c' \<in> set cs \<Longrightarrow> row c' = i \<Longrightarrow> col c' = j \<Longrightarrow> g c' = v) \<Longrightarrow>
           rd L (fold (\<lambda>c cf. wr L cf (row c) (col c) (g c)) cs tb) i j = v"
    using aux by blast
qed

section \<open>The single-exercise invariant\<close>

lemma zero_le_zero_dbl: "(0::dbl) \<le> 0"
  by (simp add: zero_dbl_def)

lemma pos_imp_nonneg_dbl: "(0::dbl) < x \<Longrightarrow> 0 \<le> x"
  by (cases x rule: dbl_cases) (simp_all add: zero_dbl_def)

lemma std_max_nonneg: "0 \<le> std_max 0 x"
  by (simp add: std_max_def pos_imp_nonneg_dbl zero_le_zero_dbl)

lemma terminal_payoff_inv:
  assumes law: "lawful L ok N M"
  shows "ok (terminal_payoff L K S N M (create L N (Suc M)))"
    and "table_inv L N M M (terminal_payoff L K S N M (create L N (Suc M)))"
proof -
  let ?g = "\<lambda>i. std_max 0 (K - rd L S i M)"
  let ?res = "terminal_payoff L K S N M (create L N (Suc M))"
  have cells: "\<And>c. c \<in> set [0..<N] \<Longrightarrow> c < N \<and> M \<le> M" by simp
  note fw = fold_writes [where cs = "[0..<N]" and row = "\<lambda>c. c" and col = "\<lambda>c. M" and g = ?g,
      OF law lawful_ok_create [OF law] cells]
  have eq: "?res = fold (\<lambda>c cf. wr L cf c M (?g c)) [0..<N] (create L N (Suc M))"
    by (simp add: terminal_payoff_def)
  show "ok ?res" unfolding eq by (rule fw(1))
  have lo: "rd L ?res i j = 0" if "i < N" "j < M" for i j
  proof -
    have "rd L ?res i j = rd L (create L N (Suc M)) i j"
      unfolding eq using that by (intro fw(2)) auto
    then show ?thesis using lawful_rd_create [OF law, of i j] that by simp
  qed
  have hi: "rd L ?res i M = ?g i" if "i < N" for i
    unfolding eq using that by (intro fw(3) [of i M i]) auto
  show "table_inv L N M M ?res"
    unfolding table_inv_def
  proof (intro allI impI conjI)
    fix i j assume "i < N" "j < M" "j \<le> M"
    then show "rd L ?res i j = 0" using lo by simp
  next
    fix i j assume i: "i < N" and j: "j \<le> M"
    show "0 \<le> rd L ?res i j"
    proof (cases "j = M")
      case True then show ?thesis using hi [OF i] std_max_nonneg by simp
    next
      case False then show ?thesis using lo [of i j] i j zero_le_zero_dbl by simp
    qed
  next
    fix i j1 j2
    assume "M \<le> j1 \<and> j1 \<le> M \<and> M \<le> j2 \<and> j2 \<le> M \<and> rd L ?res i j1 \<noteq> 0 \<and> rd L ?res i j2 \<noteq> 0"
    then show "j1 = j2" by simp
  qed
qed

lemma exercise_rd:
  assumes law: "lawful L ok N M" and ok: "ok cf" and i: "i < N" and t: "t \<le> M"
  shows "ok (exercise L M i t v cf)"
    and "\<And>i' j'. i' < N \<Longrightarrow> j' \<le> M \<Longrightarrow>
          rd L (exercise L M i t v cf) i' j' =
            (if i' = i then (if j' = t then v else if t < j' then 0 else rd L cf i' j') else rd L cf i' j')"
proof -
  let ?tb = "wr L cf i t v"
  have ok1: "ok ?tb" using lawful_ok_wr [OF law ok i t] .
  have cells: "\<And>c. c \<in> set [Suc t..<Suc M] \<Longrightarrow> i < N \<and> c \<le> M" using i by (auto simp del: upt_Suc)
  note fw = fold_writes [where cs = "[Suc t..<Suc M]" and row = "\<lambda>c. i" and col = "\<lambda>c. c" and g = "\<lambda>c. 0",
      OF law ok1 cells]
  have eq: "exercise L M i t v cf = fold (\<lambda>c cf. wr L cf i c 0) [Suc t..<Suc M] ?tb"
    by (simp only: exercise_def)
  show "ok (exercise L M i t v cf)" unfolding eq by (rule fw(1))
  fix i' j' assume i': "i' < N" and j': "j' \<le> M"
  have base: "rd L ?tb i' j' = (if i' = i \<and> j' = t then v else rd L cf i' j')"
    using lawful_rd_wr [OF law ok i t i' j'] .
  show "rd L (exercise L M i t v cf) i' j' =
            (if i' = i then (if j' = t then v else if t < j' then 0 else rd L cf i' j') else rd L cf i' j')"
  proof (cases "i' = i \<and> t < j'")
    case True
    have "rd L (exercise L M i t v cf) i' j' = 0"
      unfolding eq using True i' j' by (intro fw(3) [of i' j' j']) (auto simp del: upt_Suc)
    then show ?thesis using True by simp
  next
    case False
    have "rd L (exercise L M i t v cf) i' j' = rd L ?tb i' j'"
      unfolding eq using False i' j' by (intro fw(2)) (auto simp del: upt_Suc)
    then show ?thesis using False base by auto
  qed
qed

lemma table_inv_weaken:
  assumes "table_inv L N M (Suc t) cf"
  shows "table_inv L N M t cf"
  unfolding table_inv_def
proof (intro allI impI conjI)
  fix i j assume "i < N" "j < t" "j \<le> M"
  then show "rd L cf i j = 0" using assms unfolding table_inv_def by auto
next
  fix i j assume "i < N" "j \<le> M"
  then show "0 \<le> rd L cf i j" using assms unfolding table_inv_def by auto
next
  fix i j1 j2
  assume i: "i < N" and h: "t \<le> j1 \<and> j1 \<le> M \<and> t \<le> j2 \<and> j2 \<le> M \<and> rd L cf i j1 \<noteq> 0 \<and> rd L cf i j2 \<noteq> 0"
  have z: "rd L cf i t = 0" if "t \<le> M" using assms i that unfolding table_inv_def by auto
  have "Suc t \<le> j1" using h z by (cases "j1 = t") auto
  moreover have "Suc t \<le> j2" using h z by (cases "j2 = t") auto
  ultimately show "j1 = j2" using assms i h unfolding table_inv_def by blast
qed

lemma exercise_inv:
  assumes law: "lawful L ok N M" and ok: "ok cf" and i: "i < N" and t: "t \<le> M"
    and inv: "table_inv L N M t cf" and v: "0 \<le> v"
  shows "table_inv L N M t (exercise L M i t v cf)"
  unfolding table_inv_def
proof (intro allI impI conjI)
  note rd = exercise_rd(2) [OF law ok i t, of _ _ v]
  {
    fix i' j assume "i' < N" "j < t" "j \<le> M"
    then show "rd L (exercise L M i t v cf) i' j = 0"
      using rd [of i' j] inv unfolding table_inv_def by auto
  next
    fix i' j assume "i' < N" "j \<le> M"
    then show "0 \<le> rd L (exercise L M i t v cf) i' j"
      using rd [of i' j] inv v zero_le_zero_dbl unfolding table_inv_def by auto
  next
    fix i' j1 j2
    assume i': "i' < N"
      and h: "t \<le> j1 \<and> j1 \<le> M \<and> t \<le> j2 \<and> j2 \<le> M \<and>
        rd L (exercise L M i t v cf) i' j1 \<noteq> 0 \<and> rd L (exercise L M i t v cf) i' j2 \<noteq> 0"
    show "j1 = j2"
    proof (cases "i' = i")
      case True
      then have "j1 = t" "j2 = t" using h rd [of i' j1] rd [of i' j2] i' by (auto split: if_splits)
      then show ?thesis by simp
    next
      case False
      then show ?thesis using h rd [of i' j1] rd [of i' j2] i' inv unfolding table_inv_def
        by (metis (no_types, lifting))
    qed
  }
qed

lemma exercise_decision_inv:
  assumes law: "lawful L ok N M" and t: "t \<le> M" and n: "itm ! n < N"
    and pre: "ok cf \<and> table_inv L N M t cf"
  shows "ok (exercise_decision L K S M t coeffs itm xs n cf)
       \<and> table_inv L N M t (exercise_decision L K S M t coeffs itm xs n cf)"
proof -
  let ?v = "std_max 0 (K - rd L S (itm ! n) t)"
  have okcf: "ok cf" and inv: "table_inv L N M t cf" using pre by simp_all
  have "ok (exercise L M (itm ! n) t ?v cf)"
    by (rule exercise_rd(1) [OF law okcf n t])
  moreover have "table_inv L N M t (exercise L M (itm ! n) t ?v cf)"
    by (rule exercise_inv [OF law okcf n t inv std_max_nonneg])
  ultimately show ?thesis using pre by (simp add: exercise_decision_def Let_def)
qed

lemma in_the_money_paths_less: "n < length (in_the_money_paths L K S N t) \<Longrightarrow> in_the_money_paths L K S N t ! n < N"
proof -
  assume "n < length (in_the_money_paths L K S N t)"
  then have "in_the_money_paths L K S N t ! n \<in> set (in_the_money_paths L K S N t)" by simp
  then show ?thesis by (simp add: in_the_money_paths_def)
qed

lemma backward_step_inv:
  assumes law: "lawful L ok N M" and t: "t < M"
    and pre: "ok cf \<and> table_inv L N M (Suc t) cf"
  shows "ok (backward_step L K r dt S N M t cf) \<and> table_inv L N M t (backward_step L K r dt S N M t cf)"
proof -
  have pre': "ok cf \<and> table_inv L N M t cf"
    using pre table_inv_weaken [of L N M t cf] by simp
  let ?itm = "in_the_money_paths L K S N t"
  have "ok (exercise_update L K S M t coeffs ?itm xs cf)
      \<and> table_inv L N M t (exercise_update L K S M t coeffs ?itm xs cf)" for coeffs xs
    unfolding exercise_update_def
  proof (rule fold_invariant [where P = "\<lambda>cf. ok cf \<and> table_inv L N M t cf"])
    fix n s assume "n \<in> set [0..<length ?itm]" and s: "ok s \<and> table_inv L N M t s"
    then have "?itm ! n < N" using in_the_money_paths_less by simp
    moreover have "t \<le> M" using t by simp
    ultimately show "ok (exercise_decision L K S M t coeffs ?itm xs n s)
       \<and> table_inv L N M t (exercise_decision L K S M t coeffs ?itm xs n s)"
      using s by (intro exercise_decision_inv [OF law])
  qed (rule pre')
  then show ?thesis using pre' by (simp add: backward_step_def Let_def)
qed

lemma backward_dates_inv:
  assumes law: "lawful L ok N M"
    and pre: "ok cf \<and> table_inv L N M M cf"
  shows "m \<le> M \<Longrightarrow> ok (fold (backward_step L K r dt S N M) (rev [m..<M]) cf)
       \<and> table_inv L N M m (fold (backward_step L K r dt S N M) (rev [m..<M]) cf)"
proof (induction "M - m" arbitrary: m)
  case 0
  then show ?case using pre by simp
next
  case (Suc d)
  then have lt: "m < M" and d: "d = M - Suc m" and le: "Suc m \<le> M" by simp_all
  have ih: "ok (fold (backward_step L K r dt S N M) (rev [Suc m..<M]) cf)
       \<and> table_inv L N M (Suc m) (fold (backward_step L K r dt S N M) (rev [Suc m..<M]) cf)"
    using Suc.hyps(1) [OF d le] .
  have "rev [m..<M] = rev [Suc m..<M] @ [m]" using lt by (simp add: upt_rec [of m M])
  then show ?case using backward_step_inv [OF law lt ih] by simp
qed

lemma cash_flow_table_inv:
  assumes law: "lawful L ok N M"
  shows "ok (cash_flow_table L K r dt S N M)"
    and "table_inv L N M (min 1 M) (cash_flow_table L K r dt S N M)"
proof -
  have pre: "ok (terminal_payoff L K S N M (create L N (Suc M)))
        \<and> table_inv L N M M (terminal_payoff L K S N M (create L N (Suc M)))"
    using terminal_payoff_inv [OF law, of K S] by simp
  have m: "min 1 M \<le> M" by simp
  have e: "rev [min 1 M..<M] = interior_dates M"
    by (cases "M = 0") (simp_all add: interior_dates_def)
  note r = backward_dates_inv [OF law pre m, of K r dt S]
  show "ok (cash_flow_table L K r dt S N M)"
    using r unfolding e by (simp add: cash_flow_table_def backward_induction_def)
  show "table_inv L N M (min 1 M) (cash_flow_table L K r dt S N M)"
    using r unfolding e by (simp add: cash_flow_table_def backward_induction_def)
qed

lemma table_inv_card:
  assumes inv: "table_inv L N M t cf" and t: "t \<le> 1" and i: "i < N"
  shows "card (nonzero_dates L cf M i) \<le> 1"
proof -
  have fin: "finite (nonzero_dates L cf M i)"
    by (rule finite_subset [of _ "{..M}"]) (auto simp: nonzero_dates_def)
  have "\<forall>a\<in>nonzero_dates L cf M i. \<forall>b\<in>nonzero_dates L cf M i. a = b"
  proof (intro ballI)
    fix a b assume a: "a \<in> nonzero_dates L cf M i" and b: "b \<in> nonzero_dates L cf M i"
    then have "t \<le> a \<and> a \<le> M \<and> t \<le> b \<and> b \<le> M \<and> rd L cf i a \<noteq> 0 \<and> rd L cf i b \<noteq> 0"
      using t by (simp add: nonzero_dates_def)
    then show "a = b" using inv i unfolding table_inv_def by blast
  qed
  then show ?thesis using fin by (simp add: card_le_Suc0_iff_eq)
qed

lemma single_exercise_generic:
  assumes law: "lawful L ok N M" and i: "i < N"
  shows "card (nonzero_dates L (cash_flow_table L K r dt S N M) M i) \<le> 1"
  using table_inv_card [OF cash_flow_table_inv(2) [OF law] _ i] by simp

lemma exercise_decision_records:
  assumes law: "lawful L ok N M" and ok: "ok cf" and n: "itm ! n < N" and t: "t \<le> M"
    and ex: "coeffs ! 0 * xs ! n * xs ! n + coeffs ! 1 * xs ! n + coeffs ! 2
               < std_max 0 (K - rd L S (itm ! n) t)"
  shows "rd L (exercise_decision L K S M t coeffs itm xs n cf) (itm ! n) t
           = std_max 0 (K - rd L S (itm ! n) t)
       \<and> (\<forall>j. t < j \<and> j \<le> M \<longrightarrow> rd L (exercise_decision L K S M t coeffs itm xs n cf) (itm ! n) j = 0)"
proof -
  let ?v = "std_max 0 (K - rd L S (itm ! n) t)"
  have e: "exercise_decision L K S M t coeffs itm xs n cf = exercise L M (itm ! n) t ?v cf"
    using ex by (simp add: exercise_decision_def Let_def)
  note rd = exercise_rd(2) [OF law ok n t, of _ _ ?v]
  show ?thesis unfolding e using rd [OF n] t by auto
qed

text \<open>
  Claim C1. The cash-flow table that a pricing call aggregates is
  \<open>cash_flow_table L K r dt S N M\<close>, with the layout \<open>path_major\<close> in the scalar variant,
  \<open>flat\<close> in the arena and threaded variants and \<open>time_major\<close> in the SIMD and ultimate
  variants. For every lattice \<open>S\<close> and every path \<open>i < N\<close>, at most one time index in
  \<open>[1, M]\<close> has a nonzero entry. And when the exercise update of date \<open>t\<close> finds the
  intrinsic value above the continuation value on a path, it records the intrinsic value
  at \<open>t\<close> and every entry of that path at a later date is zero afterwards.
\<close>

theorem single_exercise_per_path:
  "(\<forall>i<N. card (nonzero_dates path_major (cash_flow_table path_major K r dt S1 N M) M i) \<le> 1)
 \<and> (\<forall>i<N. card (nonzero_dates (flat M) (cash_flow_table (flat M) K r dt S2 N M) M i) \<le> 1)
 \<and> (\<forall>i<N. card (nonzero_dates time_major (cash_flow_table time_major K r dt S3 N M) M i) \<le> 1)
 \<and> (shape_path_major N M cf1 \<and> itm ! n < N \<and> t \<le> M
      \<and> coeffs ! 0 * xs ! n * xs ! n + coeffs ! 1 * xs ! n + coeffs ! 2
            < std_max 0 (K - rd path_major S1 (itm ! n) t)
    \<longrightarrow> rd path_major (exercise_decision path_major K S1 M t coeffs itm xs n cf1) (itm ! n) t
          = std_max 0 (K - rd path_major S1 (itm ! n) t)
      \<and> (\<forall>j. t < j \<and> j \<le> M \<longrightarrow>
            rd path_major (exercise_decision path_major K S1 M t coeffs itm xs n cf1) (itm ! n) j = 0))
 \<and> (shape_flat N M cf2 \<and> itm ! n < N \<and> t \<le> M
      \<and> coeffs ! 0 * xs ! n * xs ! n + coeffs ! 1 * xs ! n + coeffs ! 2
            < std_max 0 (K - rd (flat M) S2 (itm ! n) t)
    \<longrightarrow> rd (flat M) (exercise_decision (flat M) K S2 M t coeffs itm xs n cf2) (itm ! n) t
          = std_max 0 (K - rd (flat M) S2 (itm ! n) t)
      \<and> (\<forall>j. t < j \<and> j \<le> M \<longrightarrow>
            rd (flat M) (exercise_decision (flat M) K S2 M t coeffs itm xs n cf2) (itm ! n) j = 0))
 \<and> (shape_time_major N M cf3 \<and> itm ! n < N \<and> t \<le> M
      \<and> coeffs ! 0 * xs ! n * xs ! n + coeffs ! 1 * xs ! n + coeffs ! 2
            < std_max 0 (K - rd time_major S3 (itm ! n) t)
    \<longrightarrow> rd time_major (exercise_decision time_major K S3 M t coeffs itm xs n cf3) (itm ! n) t
          = std_max 0 (K - rd time_major S3 (itm ! n) t)
      \<and> (\<forall>j. t < j \<and> j \<le> M \<longrightarrow>
            rd time_major (exercise_decision time_major K S3 M t coeffs itm xs n cf3) (itm ! n) j = 0))"
proof (intro conjI allI impI)
  show "card (nonzero_dates path_major (cash_flow_table path_major K r dt S1 N M) M i) \<le> 1" if "i < N" for i
    using that by (rule single_exercise_generic [OF lawful_path_major])
  show "card (nonzero_dates (flat M) (cash_flow_table (flat M) K r dt S2 N M) M i) \<le> 1" if "i < N" for i
    using that by (rule single_exercise_generic [OF lawful_flat])
  show "card (nonzero_dates time_major (cash_flow_table time_major K r dt S3 N M) M i) \<le> 1" if "i < N" for i
    using that by (rule single_exercise_generic [OF lawful_time_major])
next
  assume h: "shape_path_major N M cf1 \<and> itm ! n < N \<and> t \<le> M
      \<and> coeffs ! 0 * xs ! n * xs ! n + coeffs ! 1 * xs ! n + coeffs ! 2
            < std_max 0 (K - rd path_major S1 (itm ! n) t)"
  note r = exercise_decision_records [OF lawful_path_major, of N M cf1 itm n t coeffs xs K S1]
  show "rd path_major (exercise_decision path_major K S1 M t coeffs itm xs n cf1) (itm ! n) t
          = std_max 0 (K - rd path_major S1 (itm ! n) t)" using r h by simp
  show "rd path_major (exercise_decision path_major K S1 M t coeffs itm xs n cf1) (itm ! n) j = 0"
    if "t < j \<and> j \<le> M" for j using r h that by simp
next
  assume h: "shape_flat N M cf2 \<and> itm ! n < N \<and> t \<le> M
      \<and> coeffs ! 0 * xs ! n * xs ! n + coeffs ! 1 * xs ! n + coeffs ! 2
            < std_max 0 (K - rd (flat M) S2 (itm ! n) t)"
  note r = exercise_decision_records [OF lawful_flat, of N M cf2 itm n t coeffs xs K S2]
  show "rd (flat M) (exercise_decision (flat M) K S2 M t coeffs itm xs n cf2) (itm ! n) t
          = std_max 0 (K - rd (flat M) S2 (itm ! n) t)" using r h by simp
  show "rd (flat M) (exercise_decision (flat M) K S2 M t coeffs itm xs n cf2) (itm ! n) j = 0"
    if "t < j \<and> j \<le> M" for j using r h that by simp
next
  assume h: "shape_time_major N M cf3 \<and> itm ! n < N \<and> t \<le> M
      \<and> coeffs ! 0 * xs ! n * xs ! n + coeffs ! 1 * xs ! n + coeffs ! 2
            < std_max 0 (K - rd time_major S3 (itm ! n) t)"
  note r = exercise_decision_records [OF lawful_time_major, of N M cf3 itm n t coeffs xs K S3]
  show "rd time_major (exercise_decision time_major K S3 M t coeffs itm xs n cf3) (itm ! n) t
          = std_max 0 (K - rd time_major S3 (itm ! n) t)" using r h by simp
  show "rd time_major (exercise_decision time_major K S3 M t coeffs itm xs n cf3) (itm ! n) j = 0"
    if "t < j \<and> j \<le> M" for j using r h that by simp
qed

theorem single_exercise_per_path_witness:
  "card (nonzero_dates path_major
           (cash_flow_table path_major (fl 105) (fl 0) (fl 1) [[fl 100, fl 100, fl 100]] 1 2) 2 0) \<le> 1
 \<and> card (nonzero_dates (flat 2)
           (cash_flow_table (flat 2) (fl 105) (fl 0) (fl 1) [fl 100, fl 100, fl 100] 1 2) 2 0) \<le> 1
 \<and> card (nonzero_dates time_major
           (cash_flow_table time_major (fl 105) (fl 0) (fl 1) [[fl 100], [fl 100], [fl 100]] 1 2) 2 0) \<le> 1
 \<and> rd path_major (exercise_decision path_major (fl 105) [[fl 100, fl 100, fl 100]] 2 1
                     [fl 0, fl 0, fl 0] [0] [fl 100] 0 [[fl 0, fl 0, fl 5]]) 0 1 = fl 5
 \<and> rd path_major (exercise_decision path_major (fl 105) [[fl 100, fl 100, fl 100]] 2 1
                     [fl 0, fl 0, fl 0] [0] [fl 100] 0 [[fl 0, fl 0, fl 5]]) 0 2 = 0
 \<and> rd (flat 2) (exercise_decision (flat 2) (fl 105) [fl 100, fl 100, fl 100] 2 1
                     [fl 0, fl 0, fl 0] [0] [fl 100] 0 [fl 0, fl 0, fl 5]) 0 2 = 0
 \<and> rd time_major (exercise_decision time_major (fl 105) [[fl 100], [fl 100], [fl 100]] 2 1
                     [fl 0, fl 0, fl 0] [0] [fl 100] 0 [[fl 0], [fl 0], [fl 5]]) 0 2 = 0"
proof -
  have c: "[fl 0, fl 0, fl 0] ! 0 * [fl 100] ! 0 * [fl 100] ! 0 + [fl 0, fl 0, fl 0] ! 1 * [fl 100] ! 0
            + [fl 0, fl 0, fl 0] ! 2 = fl 0"
    by simp
  have v1: "std_max 0 (fl 105 - rd path_major [[fl 100, fl 100, fl 100]] ([0] ! 0) 1) = fl 5"
    by (simp add: std_max_def path_major_def minus_dbl_def zero_dbl_def)
  have v2: "std_max 0 (fl 105 - rd (flat 2) [fl 100, fl 100, fl 100] ([0] ! 0) 1) = fl 5"
    by (simp add: std_max_def flat_def minus_dbl_def zero_dbl_def)
  have v3: "std_max 0 (fl 105 - rd time_major [[fl 100], [fl 100], [fl 100]] ([0] ! 0) 1) = fl 5"
    by (simp add: std_max_def time_major_def minus_dbl_def zero_dbl_def)
  have s: "shape_path_major 1 2 [[fl 0, fl 0, fl 5]]" "shape_flat 1 2 [fl 0, fl 0, fl 5]"
    "shape_time_major 1 2 [[fl 0], [fl 0], [fl 5]]"
    by (simp_all add: shape_path_major_def shape_flat_def shape_time_major_def)
  show ?thesis
    using single_exercise_per_path [where N = 1 and M = 2 and K = "fl 105" and r = "fl 0"
        and dt = "fl 1" and ?S1.0 = "[[fl 100, fl 100, fl 100]]"
        and ?S2.0 = "[fl 100, fl 100, fl 100]" and ?S3.0 = "[[fl 100], [fl 100], [fl 100]]"
        and ?cf1.0 = "[[fl 0, fl 0, fl 5]]" and ?cf2.0 = "[fl 0, fl 0, fl 5]"
        and ?cf3.0 = "[[fl 0], [fl 0], [fl 5]]" and itm = "[0]" and n = 0 and t = 1
        and coeffs = "[fl 0, fl 0, fl 0]" and xs = "[fl 100]"]
    unfolding c v1 v2 v3 using s by simp
qed

section \<open>The regression target\<close>

lemma future_cf_from_hit:
  assumes "j0 \<le> j" "j \<le> M" "0 < rd L cf i j" "\<forall>j'. j0 \<le> j' \<and> j' < j \<longrightarrow> \<not> 0 < rd L cf i j'"
  shows "future_cf_from L r dt cf M i t j0 = rd L cf i j * exp_dbl (- r * double_of_int (int j - int t) * dt)"
  using assms
proof (induction "j - j0" arbitrary: j0)
  case 0
  then have "j0 = j" by simp
  then show ?case using 0 by (subst future_cf_from.simps) simp
next
  case (Suc d)
  then have lt: "j0 < j" by simp
  then have "\<not> 0 < rd L cf i j0" "\<not> M < j0" using Suc.prems by auto
  then have "future_cf_from L r dt cf M i t j0 = future_cf_from L r dt cf M i t (Suc j0)"
    by (subst future_cf_from.simps) simp
  moreover have "future_cf_from L r dt cf M i t (Suc j0)
      = rd L cf i j * exp_dbl (- r * double_of_int (int j - int t) * dt)"
    using Suc.hyps(2) Suc.prems lt by (intro Suc.hyps(1)) auto
  ultimately show ?case by simp
qed

lemma future_cf_from_none:
  assumes "\<forall>j'. j0 \<le> j' \<and> j' \<le> M \<longrightarrow> \<not> 0 < rd L cf i j'"
  shows "future_cf_from L r dt cf M i t j0 = 0"
  using assms
proof (induction "Suc M - j0" arbitrary: j0)
  case 0
  then have "M < j0" by simp
  then show ?case by (subst future_cf_from.simps) simp
next
  case (Suc d)
  then have le: "j0 \<le> M" by simp
  then have "\<not> 0 < rd L cf i j0" "\<not> M < j0" using Suc.prems by auto
  then have "future_cf_from L r dt cf M i t j0 = future_cf_from L r dt cf M i t (Suc j0)"
    by (subst future_cf_from.simps) simp
  moreover have "future_cf_from L r dt cf M i t (Suc j0) = 0"
    using Suc.hyps(2) Suc.prems by (intro Suc.hyps(1)) auto
  ultimately show ?case by simp
qed

lemma in_the_money_paths_itm:
  assumes "n < length (in_the_money_paths L K S N t)"
  shows "0 < K - rd L S (in_the_money_paths L K S N t ! n) t"
proof -
  have "in_the_money_paths L K S N t ! n \<in> set (in_the_money_paths L K S N t)" using assms by simp
  then show ?thesis by (simp add: in_the_money_paths_def)
qed

text \<open>
  Claim C7. At a date \<open>t\<close>, for the \<open>n\<close>-th selected path \<open>i\<close> (a path below \<open>N\<close> with
  \<open>K - S[i,t] > 0\<close>, whose regression abscissa is \<open>S[i,t]\<close>), the regression target is the
  entry at the first time index \<open>j\<close> after \<open>t\<close> with a positive cash flow, times
  \<open>exp(-r (j - t) dt)\<close>, and it is 0 when no entry after \<open>t\<close> is positive. This holds in
  every layout and for every state of the cash-flow table.
\<close>

theorem regression_target:
  "n < length (in_the_money_paths L K S N t) \<longrightarrow>
     in_the_money_paths L K S N t ! n < N
   \<and> 0 < K - rd L S (in_the_money_paths L K S N t ! n) t
   \<and> x_itm L K S N t ! n = rd L S (in_the_money_paths L K S N t ! n) t
   \<and> (\<forall>j. first_positive_after L cash_flows M (in_the_money_paths L K S N t ! n) t j \<longrightarrow>
          y_itm L K r dt S cash_flows N M t ! n
            = rd L cash_flows (in_the_money_paths L K S N t ! n) j
                * exp_dbl (- r * double_of_int (int j - int t) * dt))
   \<and> ((\<forall>j. t < j \<and> j \<le> M \<longrightarrow> \<not> 0 < rd L cash_flows (in_the_money_paths L K S N t ! n) j) \<longrightarrow>
          y_itm L K r dt S cash_flows N M t ! n = 0)"
proof (intro impI conjI allI)
  assume n: "n < length (in_the_money_paths L K S N t)"
  let ?i = "in_the_money_paths L K S N t ! n"
  show "?i < N" using n by (rule in_the_money_paths_less)
  show "0 < K - rd L S ?i t" using n by (rule in_the_money_paths_itm)
  show "x_itm L K S N t ! n = rd L S ?i t" using n by (simp add: x_itm_def)
  have y: "y_itm L K r dt S cash_flows N M t ! n = future_cf_from L r dt cash_flows M ?i t (Suc t)"
    using n by (simp add: y_itm_def future_cf_def)
  show "y_itm L K r dt S cash_flows N M t ! n
          = rd L cash_flows ?i j * exp_dbl (- r * double_of_int (int j - int t) * dt)"
    if "first_positive_after L cash_flows M ?i t j" for j
    unfolding y using that
    by (intro future_cf_from_hit) (auto simp: first_positive_after_def)
  show "y_itm L K r dt S cash_flows N M t ! n = 0"
    if "\<forall>j. t < j \<and> j \<le> M \<longrightarrow> \<not> 0 < rd L cash_flows ?i j"
    unfolding y using that by (intro future_cf_from_none) auto
qed

theorem regression_target_witness:
  "y_itm path_major (fl 105) (fl 0) (fl 1) [[fl 100, fl 100, fl 100, fl 100]]
      [[fl 0, fl 0, fl 0, fl 5]] 1 3 1 ! 0 = fl 5
 \<and> y_itm path_major (fl 105) (fl 0) (fl 1) [[fl 100, fl 100, fl 100, fl 100]]
      [[fl 0, fl 0, fl 0, fl 0]] 1 3 1 ! 0 = 0"
proof -
  have itm: "in_the_money_paths path_major (fl 105) [[fl 100, fl 100, fl 100, fl 100]] 1 1 = [0]"
    by (simp add: in_the_money_paths_def path_major_def minus_dbl_def zero_dbl_def)
  have fp: "first_positive_after path_major [[fl 0, fl 0, fl 0, fl 5]] 3 0 1 3"
    unfolding first_positive_after_def
  proof (intro conjI allI impI)
    fix j' :: nat assume "1 < j' \<and> j' < 3"
    then have "j' = 2" by simp
    then show "\<not> 0 < rd path_major [[fl 0, fl 0, fl 0, fl 5]] 0 j'"
      by (simp add: path_major_def zero_dbl_def)
  qed (simp_all add: path_major_def zero_dbl_def)
  have none: "\<forall>j. 1 < j \<and> j \<le> 3 \<longrightarrow> \<not> 0 < rd path_major [[fl 0, fl 0, fl 0, fl 0]] 0 j"
  proof (intro allI impI)
    fix j :: nat assume "1 < j \<and> j \<le> 3"
    then have "j = 2 \<or> j = 3" by auto
    then show "\<not> 0 < rd path_major [[fl 0, fl 0, fl 0, fl 0]] 0 j"
      by (auto simp: path_major_def zero_dbl_def)
  qed
  have v: "rd path_major [[fl 0, fl 0, fl 0, fl 5]] 0 3
             * exp_dbl (- fl 0 * double_of_int (int 3 - int 1) * fl 1) = fl 5"
    by (simp add: path_major_def double_of_int_def)
  show ?thesis
    using regression_target [where L = path_major and K = "fl 105" and r = "fl 0" and dt = "fl 1"
        and S = "[[fl 100, fl 100, fl 100, fl 100]]" and N = 1 and M = 3 and t = 1 and n = 0
        and cash_flows = "[[fl 0, fl 0, fl 0, fl 5]]"]
      regression_target [where L = path_major and K = "fl 105" and r = "fl 0" and dt = "fl 1"
        and S = "[[fl 100, fl 100, fl 100, fl 100]]" and N = 1 and M = 3 and t = 1 and n = 0
        and cash_flows = "[[fl 0, fl 0, fl 0, fl 0]]"]
      fp none v
    unfolding itm by simp
qed

section \<open>The simulated lattice\<close>

lemma gbm_update_code:
  "s * exp_dbl ((r - fl (1 / 2) * sigma * sigma) * dt + sigma * sqrt_dbl dt * z)
     = gbm_update s r sigma dt z"
  by (simp only: gbm_update_def)

text \<open>The step loop of one path, with the draw of step \<open>j\<close> given by \<open>d j\<close>.\<close>

lemma path_steps:
  assumes law: "lawful L ok N M" and ok: "ok S" and i: "i < N"
  shows "m \<le> M \<Longrightarrow>
    ok (fold (\<lambda>j S. wr L S i j (gbm_update (rd L S i (j - 1)) r sigma dt (d j))) [1..<Suc m] (wr L S i 0 S0))
  \<and> (\<forall>i'<N. \<forall>j'\<le>M.
        rd L (fold (\<lambda>j S. wr L S i j (gbm_update (rd L S i (j - 1)) r sigma dt (d j))) [1..<Suc m] (wr L S i 0 S0)) i' j'
          = (if i' = i \<and> j' \<le> m
             then (if j' = 0 then S0
                   else gbm_update
                     (rd L (fold (\<lambda>j S. wr L S i j (gbm_update (rd L S i (j - 1)) r sigma dt (d j))) [1..<Suc m] (wr L S i 0 S0)) i (j' - 1))
                     r sigma dt (d j'))
             else rd L S i' j'))"
proof (induction m)
  case 0
  have z: "0 \<le> M" by simp
  show ?case
    using lawful_ok_wr [OF law ok i z] lawful_rd_wr [OF law ok i z] by auto
next
  case (Suc m)
  define f where "f = (\<lambda>j S. wr L S i j (gbm_update (rd L S i (j - 1)) r sigma dt (d j)))"
  define prev where "prev = fold f [1..<Suc m] (wr L S i 0 S0)"
  define res where "res = fold f [1..<Suc (Suc m)] (wr L S i 0 S0)"
  have m: "m \<le> M" and sm: "Suc m \<le> M" using Suc.prems by simp_all
  have okp: "ok prev" using Suc.IH [OF m] unfolding prev_def f_def by blast
  have rdp: "\<And>i' j'. i' < N \<Longrightarrow> j' \<le> M \<Longrightarrow> rd L prev i' j'
          = (if i' = i \<and> j' \<le> m
             then (if j' = 0 then S0 else gbm_update (rd L prev i (j' - 1)) r sigma dt (d j'))
             else rd L S i' j')"
    using Suc.IH [OF m] unfolding prev_def f_def by blast
  have e: "res = wr L prev i (Suc m) (gbm_update (rd L prev i m) r sigma dt (d (Suc m)))"
    unfolding res_def prev_def by (simp add: f_def)
  have rdr: "\<And>i' j'. i' < N \<Longrightarrow> j' \<le> M \<Longrightarrow>
      rd L res i' j' = (if i' = i \<and> j' = Suc m then gbm_update (rd L prev i m) r sigma dt (d (Suc m))
                          else rd L prev i' j')"
    unfolding e using lawful_rd_wr [OF law okp i sm] by blast
  have same: "rd L res i k = rd L prev i k" if "k \<le> m" for k
    using rdr [OF i, of k] that sm by simp
  have goal: "ok res \<and> (\<forall>i'<N. \<forall>j'\<le>M. rd L res i' j'
          = (if i' = i \<and> j' \<le> Suc m
             then (if j' = 0 then S0 else gbm_update (rd L res i (j' - 1)) r sigma dt (d j'))
             else rd L S i' j'))"
  proof (intro conjI allI impI)
    show "ok res" unfolding e by (rule lawful_ok_wr [OF law okp i sm])
  next
    fix i' j' assume i': "i' < N" and j': "j' \<le> M"
    show "rd L res i' j'
          = (if i' = i \<and> j' \<le> Suc m
             then (if j' = 0 then S0 else gbm_update (rd L res i (j' - 1)) r sigma dt (d j'))
             else rd L S i' j')"
    proof (cases "i' = i \<and> j' = Suc m")
      case True
      then show ?thesis using rdr [OF i' j'] same [of m] by simp
    next
      case False
      show ?thesis
      proof (cases "i' = i \<and> j' \<le> m")
        case True
        then have a: "rd L res i' j' = rd L prev i j'" using same by simp
        have "j' - 1 \<le> m" using True by arith
        then have b: "rd L res i (j' - 1) = rd L prev i (j' - 1)" by (rule same)
        show ?thesis unfolding a b using rdp [OF i' j'] True by simp
      next
        case F2: False
        then show ?thesis using False rdr [OF i' j'] rdp [OF i' j'] by auto
      qed
    qed
  qed
  then show ?case unfolding res_def f_def .
qed

lemma simulate_paths_omp_alt:
  "simulate_paths_omp L draw S0 r sigma dt N M =
     fold (\<lambda>i S. fold (\<lambda>j S. wr L S i j (gbm_update (rd L S i (j - 1)) r sigma dt (draw i j)))
                       [1..<Suc M] (wr L S i 0 S0))
          [0..<N] (create L N (Suc M))"
  by (simp only: simulate_paths_omp_def gbm_update_code)

lemma paths_loop:
  assumes law: "lawful L ok N M" and ok: "ok S"
  shows "n \<le> N \<Longrightarrow>
    ok (fold (\<lambda>i S. fold (\<lambda>j S. wr L S i j (gbm_update (rd L S i (j - 1)) r sigma dt (draw i j)))
                       [1..<Suc M] (wr L S i 0 S0)) [0..<n] S)
  \<and> follows_gbm L
       (fold (\<lambda>i S. fold (\<lambda>j S. wr L S i j (gbm_update (rd L S i (j - 1)) r sigma dt (draw i j)))
                       [1..<Suc M] (wr L S i 0 S0)) [0..<n] S)
       draw S0 r sigma dt n M
  \<and> (\<forall>i'<N. n \<le> i' \<longrightarrow> (\<forall>j'\<le>M.
        rd L (fold (\<lambda>i S. fold (\<lambda>j S. wr L S i j (gbm_update (rd L S i (j - 1)) r sigma dt (draw i j)))
                       [1..<Suc M] (wr L S i 0 S0)) [0..<n] S) i' j' = rd L S i' j'))"
proof (induction n)
  case 0
  then show ?case using ok by (simp add: follows_gbm_def)
next
  case (Suc n)
  define g where "g = (\<lambda>i S. fold (\<lambda>j S. wr L S i j (gbm_update (rd L S i (j - 1)) r sigma dt (draw i j)))
                       [1..<Suc M] (wr L S i 0 S0))"
  define prev where "prev = fold g [0..<n] S"
  define res where "res = fold g [0..<Suc n] S"
  have n: "n < N" and nle: "n \<le> N" using Suc.prems by simp_all
  have ih: "ok prev" "follows_gbm L prev draw S0 r sigma dt n M"
    "\<And>i' j'. i' < N \<Longrightarrow> n \<le> i' \<Longrightarrow> j' \<le> M \<Longrightarrow> rd L prev i' j' = rd L S i' j'"
    using Suc.IH [OF nle] unfolding prev_def g_def by blast+
  have e: "res = g n prev" unfolding res_def prev_def by simp
  note ps = path_steps [OF law ih(1) n order_refl, of r sigma dt "draw n" S0]
  have okr: "ok res" unfolding e g_def using ps by blast
  have rdr: "\<And>i' j'. i' < N \<Longrightarrow> j' \<le> M \<Longrightarrow> rd L res i' j'
          = (if i' = n
             then (if j' = 0 then S0 else gbm_update (rd L res n (j' - 1)) r sigma dt (draw n j'))
             else rd L prev i' j')"
    unfolding e g_def using ps by simp
  have goal: "ok res \<and> follows_gbm L res draw S0 r sigma dt (Suc n) M
     \<and> (\<forall>i'<N. Suc n \<le> i' \<longrightarrow> (\<forall>j'\<le>M. rd L res i' j' = rd L S i' j'))"
  proof (intro conjI allI impI)
    show "ok res" by (rule okr)
  next
    show "follows_gbm L res draw S0 r sigma dt (Suc n) M"
      unfolding follows_gbm_def
    proof (intro allI impI conjI)
      fix i assume i: "i < Suc n"
      then have iN: "i < N" using n by simp
      show "rd L res i 0 = S0"
      proof (cases "i = n")
        case True then show ?thesis using rdr [OF iN, of 0] by simp
      next
        case False
        then have "i < n" using i by simp
        then show ?thesis using rdr [OF iN, of 0] False ih(2) unfolding follows_gbm_def by simp
      qed
      fix j assume j: "1 \<le> j \<and> j \<le> M"
      then have jM: "j \<le> M" and j1: "j - 1 \<le> M" and j0: "j \<noteq> 0" by arith+
      show "rd L res i j = gbm_update (rd L res i (j - 1)) r sigma dt (draw i j)"
      proof (cases "i = n")
        case True then show ?thesis using rdr [OF iN jM] j0 by simp
      next
        case False
        then have "i < n" using i by simp
        then have "rd L prev i j = gbm_update (rd L prev i (j - 1)) r sigma dt (draw i j)"
          using ih(2) j unfolding follows_gbm_def by simp
        then show ?thesis using rdr [OF iN jM] rdr [OF iN j1] False by simp
      qed
    qed
  next
    fix i' j' assume "i' < N" "Suc n \<le> i'" "j' \<le> M"
    then show "rd L res i' j' = rd L S i' j'"
      using rdr [of i' j'] ih(3) [of i' j'] by simp
  qed
  then show ?case unfolding res_def g_def .
qed

lemma simulate_paths_omp_follows:
  assumes law: "lawful L ok N M"
  shows "follows_gbm L (simulate_paths_omp L draw S0 r sigma dt N M) draw S0 r sigma dt N M"
  unfolding simulate_paths_omp_alt
  using paths_loop [OF law lawful_ok_create [OF law] order_refl] by blast

lemma simulate_steps_counter:
  "fold (simulate_step L Z r sigma dt i) [Suc 0..<Suc m] (S, c)
     = (fold (\<lambda>j S. wr L S i j (gbm_update (rd L S i (j - 1)) r sigma dt (Z (c + (j - 1)))))
             [Suc 0..<Suc m] S, c + m)"
proof (induction m)
  case 0
  then show ?case by simp
next
  case (Suc m)
  have u: "[Suc 0..<Suc (Suc m)] = [Suc 0..<Suc m] @ [Suc m]" by simp
  show ?case
    unfolding u fold_append comp_def Suc.IH
    by (simp add: simulate_step_def gbm_update_code)
qed

lemma simulate_paths_counter:
  "fold (simulate_path L Z S0 r sigma dt M) [0..<n] (S, 0)
     = (fold (\<lambda>i S. fold (\<lambda>j S. wr L S i j (gbm_update (rd L S i (j - 1)) r sigma dt (Z (i * M + (j - 1)))))
                         [1..<Suc M] (wr L S i 0 S0))
             [0..<n] S, n * M)"
proof (induction n)
  case 0
  then show ?case by simp
next
  case (Suc n)
  have u: "[0..<Suc n] = [0..<n] @ [n]" by simp
  show ?case
    unfolding u fold_append comp_def Suc.IH
    by (simp add: simulate_path_def simulate_steps_counter del: upt_Suc)
qed

lemma simulate_paths_eq_omp:
  "simulate_paths L Z S0 r sigma dt N M
     = simulate_paths_omp L (\<lambda>i j. Z (i * M + (j - 1))) S0 r sigma dt N M"
  unfolding simulate_paths_omp_alt simulate_paths_def simulate_paths_counter by simp

lemma simulate_paths_follows:
  assumes law: "lawful L ok N M"
  shows "follows_gbm L (simulate_paths L Z S0 r sigma dt N M) (\<lambda>i j. Z (i * M + (j - 1))) S0 r sigma dt N M"
  unfolding simulate_paths_eq_omp by (rule simulate_paths_omp_follows [OF law])

lemma column_writes:
  assumes law: "lawful L ok N M" and ok: "ok S" and j: "1 \<le> j" "j \<le> M"
  shows "(\<forall>i\<in>set rows. i < N) \<Longrightarrow>
     ok (fold (\<lambda>i S. wr L S i j (h i (rd L S i (j - 1)))) rows S)
   \<and> (\<forall>i'<N. \<forall>j'\<le>M. rd L (fold (\<lambda>i S. wr L S i j (h i (rd L S i (j - 1)))) rows S) i' j'
        = (if j' = j \<and> i' \<in> set rows then h i' (rd L S i' (j - 1)) else rd L S i' j'))"
proof (induction rows rule: rev_induct)
  case Nil
  then show ?case using ok by simp
next
  case (snoc i rows)
  define prev where "prev = fold (\<lambda>i S. wr L S i j (h i (rd L S i (j - 1)))) rows S"
  define res where "res = fold (\<lambda>i S. wr L S i j (h i (rd L S i (j - 1)))) (rows @ [i]) S"
  have i: "i < N" and rows: "\<forall>i\<in>set rows. i < N" using snoc.prems by simp_all
  have j1: "j - 1 \<le> M" "j - 1 \<noteq> j" using j by arith+
  have okp: "ok prev"
    and rdp: "\<And>i' j'. i' < N \<Longrightarrow> j' \<le> M \<Longrightarrow> rd L prev i' j'
        = (if j' = j \<and> i' \<in> set rows then h i' (rd L S i' (j - 1)) else rd L S i' j')"
    using snoc.IH [OF rows] unfolding prev_def by blast+
  have e: "res = wr L prev i j (h i (rd L prev i (j - 1)))" unfolding res_def prev_def by simp
  have p1: "rd L prev i (j - 1) = rd L S i (j - 1)" using rdp [OF i j1(1)] j1(2) by simp
  have rdr: "\<And>i' j'. i' < N \<Longrightarrow> j' \<le> M \<Longrightarrow> rd L res i' j'
        = (if i' = i \<and> j' = j then h i (rd L S i (j - 1)) else rd L prev i' j')"
    unfolding e p1 using lawful_rd_wr [OF law okp i j(2)] by blast
  have "ok res \<and> (\<forall>i'<N. \<forall>j'\<le>M. rd L res i' j'
        = (if j' = j \<and> i' \<in> set (rows @ [i]) then h i' (rd L S i' (j - 1)) else rd L S i' j'))"
  proof (intro conjI allI impI)
    show "ok res" unfolding e by (rule lawful_ok_wr [OF law okp i j(2)])
  next
    fix i' j' assume "i' < N" "j' \<le> M"
    then show "rd L res i' j'
        = (if j' = j \<and> i' \<in> set (rows @ [i]) then h i' (rd L S i' (j - 1)) else rd L S i' j')"
      using rdr [of i' j'] rdp [of i' j'] by auto
  qed
  then show ?case unfolding res_def .
qed

lemma fold_fold_concat: "fold (\<lambda>x. fold f (g x)) xs s = fold f (concat (map g xs)) s"
  by (induction xs arbitrary: s) simp_all

lemma in_set_concatI: "xs \<in> set xss \<Longrightarrow> x \<in> set xs \<Longrightarrow> x \<in> set (concat xss)"
  by auto

lemma lanes_in_range:
  assumes bs: "0 < batch_size" and dv: "batch_size dvd N"
  shows "set (concat (map (\<lambda>b. map (\<lambda>lane. b + lane) [0..<batch_size]) (batch_starts batch_size N)))
           = {0..<N}"
proof (intro set_eqI iffI)
  fix i assume "i \<in> set (concat (map (\<lambda>b. map (\<lambda>lane. b + lane) [0..<batch_size]) (batch_starts batch_size N)))"
  then obtain b where bm: "b \<in> set (batch_starts batch_size N)"
    and im: "i \<in> set (map (\<lambda>lane. b + lane) [0..<batch_size])" by auto
  from im have i: "i < b + batch_size" by auto
  from bm have b: "b < N" "b mod batch_size = 0" by (simp_all add: batch_starts_def)
  obtain q where q: "N = batch_size * q" using dv by (auto simp: dvd_def)
  obtain k where k: "b = batch_size * k" using b(2) by (auto simp: mod_eq_0_iff_dvd dvd_def)
  have "k < q" using b(1) bs unfolding q k by simp
  then have "Suc k \<le> q" by simp
  then have "batch_size * Suc k \<le> batch_size * q" by (rule mult_le_mono2)
  then have "i < N" using i unfolding q k by simp
  then show "i \<in> {0..<N}" by simp
next
  fix i assume "i \<in> {0..<N}"
  then have i: "i < N" by simp
  let ?b = "i - i mod batch_size"
  have "?b \<le> i" by simp
  then have "?b < N" using i by (rule le_less_trans)
  moreover have "?b mod batch_size = 0" "i mod batch_size < batch_size" "i = ?b + i mod batch_size"
    using bs by (simp_all add: minus_mod_eq_mult_div)
  ultimately have f: "?b < N" "?b mod batch_size = 0" "i mod batch_size < batch_size" "i = ?b + i mod batch_size"
    by blast+
  have bm: "?b \<in> set (batch_starts batch_size N)" using f(1,2) by (simp add: batch_starts_def)
  have "?b + i mod batch_size \<in> (\<lambda>lane. ?b + lane) ` set [0..<batch_size]"
    using f(3) by (intro imageI) simp
  then have im: "i \<in> set (map (\<lambda>lane. ?b + lane) [0..<batch_size])"
    using f(4) by (simp only: set_map)
  show "i \<in> set (concat (map (\<lambda>b. map (\<lambda>lane. b + lane) [0..<batch_size]) (batch_starts batch_size N)))"
    using bm im by (intro in_set_concatI [where xs = "map (\<lambda>lane. ?b + lane) [0..<batch_size]"])
      (simp_all only: set_map, rule imageI)
qed

lemma simd_time_step:
  assumes law: "lawful L ok N M" and ok: "ok S" and j: "1 \<le> j" "j \<le> M"
    and bs: "0 < batch_size" and dv: "batch_size dvd N" and z: "\<forall>i<N. z i = d i"
  shows "ok (fold (simd_batch L batch_size z ((r - fl (1 / 2) * sigma * sigma) * dt) (sigma * sqrt_dbl dt) j)
                  (batch_starts batch_size N) S)
   \<and> (\<forall>i'<N. \<forall>j'\<le>M.
        rd L (fold (simd_batch L batch_size z ((r - fl (1 / 2) * sigma * sigma) * dt) (sigma * sqrt_dbl dt) j)
                  (batch_starts batch_size N) S) i' j'
        = (if j' = j then gbm_update (rd L S i' (j - 1)) r sigma dt (d i') else rd L S i' j'))"
proof -
  let ?rows = "concat (map (\<lambda>b. map (\<lambda>lane. b + lane) [0..<batch_size]) (batch_starts batch_size N))"
  let ?h = "\<lambda>i s. gbm_update s r sigma dt (z i)"
  have e: "fold (simd_batch L batch_size z ((r - fl (1 / 2) * sigma * sigma) * dt) (sigma * sqrt_dbl dt) j)
                  (batch_starts batch_size N) S
           = fold (\<lambda>i S. wr L S i j (?h i (rd L S i (j - 1)))) ?rows S"
    unfolding fold_fold_concat [symmetric] fold_map comp_def simd_batch_def gbm_update_code ..
  have rows: "set ?rows = {0..<N}" using bs dv by (rule lanes_in_range)
  then have r: "\<forall>i\<in>set ?rows. i < N" by simp
  note cw = column_writes [OF law ok j r, of ?h]
  show ?thesis
    unfolding e using cw z unfolding rows by simp
qed

lemma std_fill_row0_rd:
  assumes law: "lawful L ok N M" and ok: "ok S"
  shows "ok (std_fill_row0 L N S0 S)"
    and "\<And>i j. i < N \<Longrightarrow> j \<le> M \<Longrightarrow> rd L (std_fill_row0 L N S0 S) i j = (if j = 0 then S0 else rd L S i j)"
proof -
  have cells: "\<And>c. c \<in> set [0..<N] \<Longrightarrow> c < N \<and> 0 \<le> M" by simp
  note fw = fold_writes [where cs = "[0..<N]" and row = "\<lambda>c. c" and col = "\<lambda>c. 0" and g = "\<lambda>c. S0",
      OF law ok cells]
  show "ok (std_fill_row0 L N S0 S)" unfolding std_fill_row0_def by (rule fw(1))
  fix i j assume i: "i < N" and j: "j \<le> M"
  show "rd L (std_fill_row0 L N S0 S) i j = (if j = 0 then S0 else rd L S i j)"
  proof (cases "j = 0")
    case True
    have "rd L (std_fill_row0 L N S0 S) i j = S0"
      unfolding std_fill_row0_def using i j True by (intro fw(3) [of i j i]) auto
    then show ?thesis using True by simp
  next
    case False
    have "rd L (std_fill_row0 L N S0 S) i j = rd L S i j"
      unfolding std_fill_row0_def using i j False by (intro fw(2)) auto
    then show ?thesis using False by simp
  qed
qed

text \<open>A loop over the time steps whose body \<open>step j\<close> fills column \<open>j\<close> from column \<open>j - 1\<close>.\<close>

lemma time_loop:
  assumes step: "\<And>j S. 1 \<le> j \<Longrightarrow> j \<le> M \<Longrightarrow> ok S \<Longrightarrow>
      ok (step j S) \<and> (\<forall>i'<N. \<forall>j'\<le>M. rd L (step j S) i' j'
        = (if j' = j then gbm_update (rd L S i' (j - 1)) r sigma dt (draw i' j) else rd L S i' j'))"
    and ok: "ok S"
  shows "m \<le> M \<Longrightarrow>
     ok (fold step [1..<Suc m] S)
   \<and> (\<forall>i<N. \<forall>j'\<le>M. rd L (fold step [1..<Suc m] S) i j'
        = (if 1 \<le> j' \<and> j' \<le> m
           then gbm_update (rd L (fold step [1..<Suc m] S) i (j' - 1)) r sigma dt (draw i j')
           else rd L S i j'))"
proof (induction m)
  case 0
  then show ?case using ok by simp
next
  case (Suc m)
  define prev where "prev = fold step [1..<Suc m] S"
  define res where "res = fold step [1..<Suc (Suc m)] S"
  have m: "m \<le> M" and sm: "Suc m \<le> M" "1 \<le> Suc m" using Suc.prems by simp_all
  have okp: "ok prev"
    and rdp: "\<And>i j'. i < N \<Longrightarrow> j' \<le> M \<Longrightarrow> rd L prev i j'
        = (if 1 \<le> j' \<and> j' \<le> m then gbm_update (rd L prev i (j' - 1)) r sigma dt (draw i j')
           else rd L S i j')"
    using Suc.IH [OF m] unfolding prev_def by blast+
  have e: "res = step (Suc m) prev" unfolding res_def prev_def by simp
  have okr: "ok res"
    and rdr: "\<And>i j'. i < N \<Longrightarrow> j' \<le> M \<Longrightarrow> rd L res i j'
        = (if j' = Suc m then gbm_update (rd L prev i m) r sigma dt (draw i (Suc m)) else rd L prev i j')"
    unfolding e using step [OF sm(2) sm(1) okp] by simp_all
  have "ok res \<and> (\<forall>i<N. \<forall>j'\<le>M. rd L res i j'
        = (if 1 \<le> j' \<and> j' \<le> Suc m then gbm_update (rd L res i (j' - 1)) r sigma dt (draw i j')
           else rd L S i j'))"
  proof (intro conjI allI impI)
    show "ok res" by (rule okr)
  next
    fix i j' assume i: "i < N" and j': "j' \<le> M"
    have j1: "j' - 1 \<le> M" using j' by arith
    show "rd L res i j'
        = (if 1 \<le> j' \<and> j' \<le> Suc m then gbm_update (rd L res i (j' - 1)) r sigma dt (draw i j')
           else rd L S i j')"
    proof (cases "j' = Suc m")
      case True
      then show ?thesis using rdr [OF i j'] rdr [OF i j1] by simp
    next
      case False
      then have a: "rd L res i j' = rd L prev i j'" using rdr [OF i j'] by simp
      show ?thesis
      proof (cases "1 \<le> j' \<and> j' \<le> m")
        case True
        then have "j' - 1 \<noteq> Suc m" by arith
        then have "rd L res i (j' - 1) = rd L prev i (j' - 1)" using rdr [OF i j1] by simp
        then show ?thesis unfolding a using rdp [OF i j'] True by simp
      next
        case F: False
        then show ?thesis unfolding a using rdp [OF i j'] False by auto
      qed
    qed
  qed
  then show ?case unfolding res_def .
qed

lemma time_loop_follows:
  assumes law: "lawful L ok N M"
    and step: "\<And>j S. 1 \<le> j \<Longrightarrow> j \<le> M \<Longrightarrow> ok S \<Longrightarrow>
      ok (step j S) \<and> (\<forall>i'<N. \<forall>j'\<le>M. rd L (step j S) i' j'
        = (if j' = j then gbm_update (rd L S i' (j - 1)) r sigma dt (draw i' j) else rd L S i' j'))"
  shows "follows_gbm L (fold step [1..<Suc M] (std_fill_row0 L N S0 (create L N (Suc M))))
           draw S0 r sigma dt N M"
proof -
  let ?init = "std_fill_row0 L N S0 (create L N (Suc M))"
  note fill = std_fill_row0_rd [OF law lawful_ok_create [OF law], where ?S0.0 = S0]
  note tl = time_loop [where step = step and draw = draw and S = ?init and m = M, OF step fill(1) order_refl]
  show ?thesis
    unfolding follows_gbm_def
  proof (intro allI impI conjI)
    fix i assume i: "i < N"
    have z: "0 \<le> M" by simp
    show "rd L (fold step [1..<Suc M] ?init) i 0 = S0"
      using tl i fill(2) [OF i z] by simp
    fix j assume "1 \<le> j \<and> j \<le> M"
    then show "rd L (fold step [1..<Suc M] ?init) i j
        = gbm_update (rd L (fold step [1..<Suc M] ?init) i (j - 1)) r sigma dt (draw i j)"
      using tl i by simp
  qed
qed

lemma simulate_simd_omp_follows:
  assumes law: "lawful L ok N M" and bs: "0 < batch_size" and dv: "batch_size dvd N"
  shows "follows_gbm L (simulate_simd_omp L batch_size draw S0 r sigma dt N M) draw S0 r sigma dt N M"
  unfolding simulate_simd_omp_def Let_def
  by (rule time_loop_follows [OF law]) (rule simd_time_step [OF law _ _ _ bs dv], simp_all)

lemma simd_steps_counter:
  "fold (\<lambda>j (S, calls). (step j calls S, calls + N)) [Suc 0..<Suc m] (S, 0)
     = (fold (\<lambda>j S. step j ((j - 1) * N) S) [Suc 0..<Suc m] S, m * N)"
proof (induction m)
  case 0
  then show ?case by simp
next
  case (Suc m)
  have u: "[Suc 0..<Suc (Suc m)] = [Suc 0..<Suc m] @ [Suc m]" by simp
  show ?case unfolding u fold_append comp_def Suc.IH by simp
qed

lemma simulate_simd_follows:
  assumes law: "lawful L ok N M" and bs: "0 < batch_size" and dv: "batch_size dvd N"
  shows "follows_gbm L (simulate_simd L batch_size Z S0 r sigma dt N M)
           (\<lambda>i j. Z ((j - 1) * N + i)) S0 r sigma dt N M"
proof -
  define step where "step = (\<lambda>j calls S.
      fold (simd_batch L batch_size (\<lambda>i. map (\<lambda>i. Z (calls + i)) [0..<N] ! i)
              ((r - fl (1 / 2) * sigma * sigma) * dt) (sigma * sqrt_dbl dt) j)
           (batch_starts batch_size N) S)"
  have e: "simulate_simd L batch_size Z S0 r sigma dt N M
      = fold (\<lambda>j S. step j ((j - 1) * N) S) [1..<Suc M] (std_fill_row0 L N S0 (create L N (Suc M)))"
    using simd_steps_counter [of step N M "std_fill_row0 L N S0 (create L N (Suc M))"]
    by (simp add: simulate_simd_def Let_def step_def del: upt_Suc)
  show ?thesis
    unfolding e
  proof (rule time_loop_follows [OF law])
    fix j S assume j: "1 \<le> j" "j \<le> M" and ok: "ok S"
    have z: "\<forall>i<N. map (\<lambda>i. Z ((j - 1) * N + i)) [0..<N] ! i = Z ((j - 1) * N + i)" by simp
    show "ok (step j ((j - 1) * N) S) \<and> (\<forall>i'<N. \<forall>j'\<le>M. rd L (step j ((j - 1) * N) S) i' j'
        = (if j' = j then gbm_update (rd L S i' (j - 1)) r sigma dt (Z ((j - 1) * N + i')) else rd L S i' j'))"
      unfolding step_def by (rule simd_time_step [OF law ok j bs dv z])
  qed
qed

lemma mixed_radix_inj:
  fixes a a' c q q' :: nat
  assumes "a < c" "a' < c" "q * c + a = q' * c + a'"
  shows "q = q' \<and> a = a'"
proof -
  have "(q * c + a) mod c = a" "(q' * c + a') mod c = a'" using assms(1,2) by simp_all
  then have a: "a = a'" using assms(3) by simp
  then have "q * c = q' * c" using assms(3) by simp
  then show ?thesis using a assms(1) by simp
qed

lemma path_major_draws_fresh: "inj_on (\<lambda>(i, j). i * M + (j - 1)) ({..<N::nat} \<times> {1..M::nat})"
proof (rule inj_onI)
  fix p q :: "nat \<times> nat"
  assume p: "p \<in> {..<N} \<times> {1..M}" and q: "q \<in> {..<N} \<times> {1..M}"
    and e: "(case p of (i, j) \<Rightarrow> i * M + (j - 1)) = (case q of (i, j) \<Rightarrow> i * M + (j - 1))"
  obtain i j where pij: "p = (i, j)" by (cases p)
  obtain i' j' where qij: "q = (i', j')" by (cases q)
  define a where "a = j - 1"
  define a' where "a' = j' - 1"
  have j: "1 \<le> j" "a < M" and j': "1 \<le> j'" "a' < M" using p q pij qij by (auto simp: a_def a'_def)
  have eq: "i * M + a = i' * M + a'" using e pij qij by (simp add: a_def a'_def)
  have "i = i' \<and> a = a'" using j(2) j'(2) eq by (rule mixed_radix_inj)
  then have "i = i'" "j = j'" using j(1) j'(1) by (auto simp: a_def a'_def)
  then show "p = q" using pij qij by simp
qed

lemma time_major_draws_fresh: "inj_on (\<lambda>(i, j). (j - 1) * N + i) ({..<N::nat} \<times> {1..M::nat})"
proof (rule inj_onI)
  fix p q :: "nat \<times> nat"
  assume p: "p \<in> {..<N} \<times> {1..M}" and q: "q \<in> {..<N} \<times> {1..M}"
    and e: "(case p of (i, j) \<Rightarrow> (j - 1) * N + i) = (case q of (i, j) \<Rightarrow> (j - 1) * N + i)"
  obtain i j where pij: "p = (i, j)" by (cases p)
  obtain i' j' where qij: "q = (i', j')" by (cases q)
  define a where "a = j - 1"
  define a' where "a' = j' - 1"
  have i: "i < N" "1 \<le> j" and i': "i' < N" "1 \<le> j'" using p q pij qij by auto
  have eq: "a * N + i = a' * N + i'" using e pij qij by (simp add: a_def a'_def)
  have "a = a' \<and> i = i'" using i(1) i'(1) eq by (rule mixed_radix_inj)
  then have "i = i'" "j = j'" using i(2) i'(2) by (auto simp: a_def a'_def)
  then show "p = q" using pij qij by simp
qed

text \<open>
  Claim C6. The lattice of each variant starts every path at \<open>S0\<close> and obeys
  \<open>S[i,j] = S[i,j-1] exp((r - 0.5 sigma\<^sup>2) dt + sigma sqrt(dt) Z)\<close> at every step
  \<open>1, \<dots>, M\<close>, with \<open>dt = T / num_steps\<close>. In the scalar and arena variants \<open>Z\<close> is the
  draw at position \<open>i M + (j - 1)\<close> of the stream, in the SIMD variant the draw at position
  \<open>(j - 1) N + i\<close>, and no two entries share a position; in the threaded variants it is
  the draw that the thread schedule gives to path \<open>i\<close> at step \<open>j\<close>. The SIMD kernels
  run with a positive lane width that divides the number of paths, as the entry points
  check.
\<close>

theorem forward_recurrence:
  "follows_gbm path_major
     (simulate_paths path_major Z S0 r sigma (T / double_of_int num_steps) (nat num_paths) (nat num_steps))
     (\<lambda>i j. Z (i * nat num_steps + (j - 1))) S0 r sigma (T / double_of_int num_steps)
     (nat num_paths) (nat num_steps)
 \<and> follows_gbm (flat (nat num_steps))
     (simulate_paths (flat (nat num_steps)) Z S0 r sigma (T / double_of_int num_steps)
        (nat num_paths) (nat num_steps))
     (\<lambda>i j. Z (i * nat num_steps + (j - 1))) S0 r sigma (T / double_of_int num_steps)
     (nat num_paths) (nat num_steps)
 \<and> follows_gbm (flat (nat num_steps))
     (simulate_paths_omp (flat (nat num_steps)) draw S0 r sigma (T / double_of_int num_steps)
        (nat num_paths) (nat num_steps))
     draw S0 r sigma (T / double_of_int num_steps) (nat num_paths) (nat num_steps)
 \<and> (0 < batch_size \<and> batch_size dvd nat num_paths \<longrightarrow>
      follows_gbm time_major
        (simulate_simd time_major batch_size Z S0 r sigma (T / double_of_int num_steps)
           (nat num_paths) (nat num_steps))
        (\<lambda>i j. Z ((j - 1) * nat num_paths + i)) S0 r sigma (T / double_of_int num_steps)
        (nat num_paths) (nat num_steps)
    \<and> follows_gbm time_major
        (simulate_simd_omp time_major batch_size draw S0 r sigma (T / double_of_int num_steps)
           (nat num_paths) (nat num_steps))
        draw S0 r sigma (T / double_of_int num_steps) (nat num_paths) (nat num_steps))
 \<and> inj_on (\<lambda>(i, j). i * nat num_steps + (j - 1)) ({..<nat num_paths} \<times> {1..nat num_steps})
 \<and> inj_on (\<lambda>(i, j). (j - 1) * nat num_paths + i) ({..<nat num_paths} \<times> {1..nat num_steps})"
  by (intro conjI impI simulate_paths_follows [OF lawful_path_major]
      simulate_paths_follows [OF lawful_flat] simulate_paths_omp_follows [OF lawful_flat]
      simulate_simd_follows [OF lawful_time_major] simulate_simd_omp_follows [OF lawful_time_major]
      path_major_draws_fresh time_major_draws_fresh) simp_all

theorem forward_recurrence_witness:
  "rd path_major
     (simulate_paths path_major (\<lambda>k. fl (real k)) (fl 100) (fl 0) (fl 0) (fl 1 / double_of_int 2)
        (nat 2) (nat 2)) 0 2
   = gbm_update
       (rd path_major
          (simulate_paths path_major (\<lambda>k. fl (real k)) (fl 100) (fl 0) (fl 0) (fl 1 / double_of_int 2)
             (nat 2) (nat 2)) 0 1)
       (fl 0) (fl 0) (fl 1 / double_of_int 2) (fl 1)
 \<and> rd time_major
     (simulate_simd time_major 2 (\<lambda>k. fl (real k)) (fl 100) (fl 0) (fl 0) (fl 1 / double_of_int 2)
        (nat 2) (nat 2)) 0 2
   = gbm_update
       (rd time_major
          (simulate_simd time_major 2 (\<lambda>k. fl (real k)) (fl 100) (fl 0) (fl 0) (fl 1 / double_of_int 2)
             (nat 2) (nat 2)) 0 1)
       (fl 0) (fl 0) (fl 1 / double_of_int 2) (fl 2)"
  using forward_recurrence [where Z = "\<lambda>k. fl (real k)" and ?S0.0 = "fl 100" and r = "fl 0"
      and sigma = "fl 0" and T = "fl 1" and num_steps = 2 and num_paths = 2 and batch_size = 2]
  by (simp add: follows_gbm_def)

text \<open>
  Claim C8. After the forward simulation of each variant, the entry at time 0 of every
  path \<open>i < N\<close> is \<open>S0\<close>. The SIMD kernels run with a positive lane width that divides the
  number of paths, as the entry points check.
\<close>

theorem lattice_starts_at_spot:
  "(\<forall>i<nat num_paths.
      rd path_major (simulate_paths path_major Z S0 r sigma dt (nat num_paths) (nat num_steps)) i 0 = S0
    \<and> rd (flat (nat num_steps))
         (simulate_paths (flat (nat num_steps)) Z S0 r sigma dt (nat num_paths) (nat num_steps)) i 0 = S0
    \<and> rd (flat (nat num_steps))
         (simulate_paths_omp (flat (nat num_steps)) draw S0 r sigma dt (nat num_paths) (nat num_steps)) i 0
        = S0)
 \<and> (0 < batch_size \<and> batch_size dvd nat num_paths \<longrightarrow>
      (\<forall>i<nat num_paths.
         rd time_major (simulate_simd time_major batch_size Z S0 r sigma dt (nat num_paths) (nat num_steps)) i 0
           = S0
       \<and> rd time_major
            (simulate_simd_omp time_major batch_size draw S0 r sigma dt (nat num_paths) (nat num_steps)) i 0
           = S0))"
proof (intro conjI allI impI)
  fix i assume i: "i < nat num_paths"
  show "rd path_major (simulate_paths path_major Z S0 r sigma dt (nat num_paths) (nat num_steps)) i 0 = S0"
    using simulate_paths_follows [OF lawful_path_major, where Z = Z and ?S0.0 = S0] i
    unfolding follows_gbm_def by blast
  show "rd (flat (nat num_steps))
         (simulate_paths (flat (nat num_steps)) Z S0 r sigma dt (nat num_paths) (nat num_steps)) i 0 = S0"
    using simulate_paths_follows [OF lawful_flat, where Z = Z and ?S0.0 = S0] i
    unfolding follows_gbm_def by blast
  show "rd (flat (nat num_steps))
         (simulate_paths_omp (flat (nat num_steps)) draw S0 r sigma dt (nat num_paths) (nat num_steps)) i 0
        = S0"
    using simulate_paths_omp_follows [OF lawful_flat, where draw = draw and ?S0.0 = S0] i
    unfolding follows_gbm_def by blast
next
  fix i assume bs: "0 < batch_size \<and> batch_size dvd nat num_paths" and i: "i < nat num_paths"
  show "rd time_major (simulate_simd time_major batch_size Z S0 r sigma dt (nat num_paths) (nat num_steps)) i 0
           = S0"
    using simulate_simd_follows [OF lawful_time_major, where Z = Z and ?S0.0 = S0] bs i
    unfolding follows_gbm_def by blast
  show "rd time_major
            (simulate_simd_omp time_major batch_size draw S0 r sigma dt (nat num_paths) (nat num_steps)) i 0
           = S0"
    using simulate_simd_omp_follows [OF lawful_time_major, where draw = draw and ?S0.0 = S0] bs i
    unfolding follows_gbm_def by blast
qed

theorem lattice_starts_at_spot_witness:
  "rd path_major (simulate_paths path_major (\<lambda>k. fl 1) (fl 100) (fl 0) (fl (1 / 5)) (fl (1 / 3))
                   (nat 4) (nat 3)) 3 0 = fl 100
 \<and> rd (flat (nat 3)) (simulate_paths (flat (nat 3)) (\<lambda>k. fl 1) (fl 100) (fl 0) (fl (1 / 5)) (fl (1 / 3))
                   (nat 4) (nat 3)) 3 0 = fl 100
 \<and> rd (flat (nat 3)) (simulate_paths_omp (flat (nat 3)) (\<lambda>i j. fl 1) (fl 100) (fl 0) (fl (1 / 5))
                   (fl (1 / 3)) (nat 4) (nat 3)) 3 0 = fl 100
 \<and> rd time_major (simulate_simd time_major 4 (\<lambda>k. fl 1) (fl 100) (fl 0) (fl (1 / 5)) (fl (1 / 3))
                   (nat 4) (nat 3)) 3 0 = fl 100
 \<and> rd time_major (simulate_simd_omp time_major 4 (\<lambda>i j. fl 1) (fl 100) (fl 0) (fl (1 / 5)) (fl (1 / 3))
                   (nat 4) (nat 3)) 3 0 = fl 100"
  using lattice_starts_at_spot [where Z = "\<lambda>k. fl 1" and draw = "\<lambda>i j. fl 1" and ?S0.0 = "fl 100"
      and r = "fl 0" and sigma = "fl (1 / 5)" and dt = "fl (1 / 3)" and num_paths = 4 and num_steps = 3
      and batch_size = 4]
  by simp

section \<open>The entry points\<close>

lemma int32_id: "int_value n \<Longrightarrow> int32 n = n"
  by (simp add: int_value_def int32_def)

lemma and_then_InrD: "fst (and_then m f) = Inr p \<Longrightarrow> \<exists>a. fst (f a) = Inr p"
  by (auto simp: and_then_def split: prod.splits sum.splits)


lemma price_cpp_Inr:
  assumes "0 \<le> num_paths" and "0 \<le> num_steps" and "num_steps + 1 < 2 ^ 31"
  shows "price_american_put_lsm_cpp rng S0 K T r sigma num_paths num_steps seed
           = Inr (lsm_price path_major K r (T / double_of_int num_steps)
                    (simulate_paths path_major (rng seed) S0 r sigma (T / double_of_int num_steps)
                       (nat num_paths) (nat num_steps))
                    num_paths num_steps)"
proof -
  have "int32 (num_steps + 1) = num_steps + 1"
    using assms by (intro int32_id) (simp add: int_value_def)
  then show ?thesis using assms by (simp add: price_american_put_lsm_cpp_def Let_def)
qed

lemma price_cpp_InrD:
  assumes "price_american_put_lsm_cpp rng S0 K T r sigma num_paths num_steps seed = Inr p"
  shows "p = lsm_price path_major K r (T / double_of_int num_steps)
               (simulate_paths path_major (rng seed) S0 r sigma (T / double_of_int num_steps)
                  (nat num_paths) (nat num_steps))
               num_paths num_steps"
  using assms by (simp add: price_american_put_lsm_cpp_def Let_def split: if_splits)

lemma price_arena_InrD:
  assumes "fst (price_american_put_lsm_arena rng arena S0 K T r sigma num_paths num_steps seed) = Inr p"
  shows "p = lsm_price (flat (nat num_steps)) K r (T / double_of_int num_steps)
               (simulate_paths (flat (nat num_steps)) (rng seed) S0 r sigma (T / double_of_int num_steps)
                  (nat num_paths) (nat num_steps))
               num_paths num_steps"
  using assms unfolding price_american_put_lsm_arena_def Let_def
  by (auto dest!: and_then_InrD split: if_splits)

lemma price_mp_InrD:
  assumes "fst (price_american_put_lsm_mp draw arena S0 K T r sigma num_paths num_steps seed) = Inr p"
  shows "p = lsm_price (flat (nat num_steps)) K r (T / double_of_int num_steps)
               (simulate_paths_omp (flat (nat num_steps)) draw S0 r sigma (T / double_of_int num_steps)
                  (nat num_paths) (nat num_steps))
               num_paths num_steps"
  using assms unfolding price_american_put_lsm_mp_def Let_def
  by (auto dest!: and_then_InrD split: if_splits)

lemma price_simd_InrD:
  assumes "price_american_put_lsm_simd batch_size rng S0 K T r sigma num_paths num_steps seed = Inr p"
  shows "p = lsm_price time_major K r (T / double_of_int num_steps)
               (simulate_simd time_major batch_size (rng seed) S0 r sigma (T / double_of_int num_steps)
                  (nat num_paths) (nat num_steps))
               num_paths num_steps"
  using assms by (simp add: price_american_put_lsm_simd_def Let_def split: if_splits)

lemma price_ultimate_InrD:
  assumes "fst (price_american_put_lsm_ultimate batch_size draw arena S0 K T r sigma num_paths num_steps seed) = Inr p"
  shows "p = lsm_price time_major K r (T / double_of_int num_steps)
               (simulate_simd_omp time_major batch_size draw S0 r sigma (T / double_of_int num_steps)
                  (nat num_paths) (nat num_steps))
               num_paths num_steps"
  using assms unfolding price_american_put_lsm_ultimate_def Let_def
  by (auto dest!: and_then_InrD split: if_splits)

text \<open>The five entry points at two paths and one step, with an arena of 4096 bytes.\<close>

lemmas alloc_eval = and_then_def vector_construct_def ArenaAllocator_allocate_def allocate_def reset_def
  Let_def int32_def flat_size_def leaves_flat_table_def

lemma demo_cpp:
  "\<exists>p. price_american_put_lsm_cpp (\<lambda>seed k. fl 0) (fl 100) (fl 105) (fl 1) (fl 0) (fl 0) 2 1 42 = Inr p"
  by (simp add: price_american_put_lsm_cpp_def Let_def int32_def)

lemma demo_arena:
  "\<exists>p. fst (price_american_put_lsm_arena (\<lambda>seed k. fl 0) \<lparr>memory_size = 4096, offset = 16\<rparr>
             (fl 100) (fl 105) (fl 1) (fl 0) (fl 0) 2 1 42) = Inr p"
  by (simp add: price_american_put_lsm_arena_def alloc_eval)

lemma demo_mp:
  "\<exists>p. fst (price_american_put_lsm_mp (\<lambda>i j. fl 0) \<lparr>memory_size = 4096, offset = 16\<rparr>
             (fl 100) (fl 105) (fl 1) (fl 0) (fl 0) 2 1 42) = Inr p"
  by (simp add: price_american_put_lsm_mp_def alloc_eval)

lemma demo_simd:
  "\<exists>p. price_american_put_lsm_simd 2 (\<lambda>seed k. fl 0) (fl 100) (fl 105) (fl 1) (fl 0) (fl 0) 2 1 42 = Inr p"
  by (simp add: price_american_put_lsm_simd_def Let_def size_t_of_int_def int32_def)

lemma vector_copies_2:
  "vector_copies 2 a n =
     and_then (vector_construct 8 a n) (\<lambda>a'. and_then (vector_construct 8 a' n) (\<lambda>a''. (Inr (), a'')))"
  by (simp add: numeral_2_eq_2)

lemma int32_2: "int32 2 = 2"
  by (simp add: int32_def)

lemma demo_ultimate:
  "\<exists>p. fst (price_american_put_lsm_ultimate 2 (\<lambda>i j. fl 0) \<lparr>memory_size = 4096, offset = 16\<rparr>
             (fl 100) (fl 105) (fl 1) (fl 0) (fl 0) 2 1 42) = Inr p"
  by (simp add: price_american_put_lsm_ultimate_def int32_2 vector_copies_2 and_then_def
      vector_construct_def ArenaAllocator_allocate_def allocate_def reset_def Let_def size_t_of_int_def)

text \<open>
  The element counts at the end of the range of \<^verbatim>\<open>int\<close>: with \<open>num_steps = 2\<^sup>3\<^sup>1 - 1\<close> the
  count \<^verbatim>\<open>num_steps + 1\<close> wraps to a negative number, and with 65536 paths and 32768 steps
  so does \<^verbatim>\<open>num_paths * (num_steps + 1)\<close>; the construction of the first table throws.
\<close>

lemma scalar_steps_wrap:
  "price_american_put_lsm_cpp rng S0 K T r sigma 1 2147483647 seed = Inl LengthError"
  by (simp add: price_american_put_lsm_cpp_def Let_def int32_def)

lemma arena_size_wraps:
  "fst (price_american_put_lsm_arena rng arena S0 K T r sigma 65536 32768 seed) = Inl LengthError"
  by (simp add: price_american_put_lsm_arena_def Let_def int32_def flat_size_def
      vector_construct_def and_then_def)

lemma mp_size_wraps:
  "fst (price_american_put_lsm_mp draw arena S0 K T r sigma 65536 32768 seed) = Inl LengthError"
  by (simp add: price_american_put_lsm_mp_def Let_def int32_def flat_size_def
      vector_construct_def and_then_def)
section \<open>Configuration errors\<close>






lemma failure_simps [simp]: "failure (Inl e) = Some e" "failure (Inr p) = None"
  by (simp_all add: failure_def)

lemma failure_if:
  "failure (if c then res1 else res2) = (if c then failure res1 else failure res2)"
  "failure (fst (if c then m1 else m2)) = (if c then failure (fst m1) else failure (fst m2))"
  by simp_all












section \<open>The lane-width check\<close>

lemma size_t_mod_lane:
  assumes "batch_size dvd 2 ^ 64"
  shows "size_t_of_int n mod batch_size = 0 \<longleftrightarrow> int batch_size dvd n"
proof -
  define x where "x = n mod 2 ^ 64"
  have d: "int batch_size dvd 2 ^ 64"
    using assms by (metis of_nat_dvd_iff of_nat_numeral of_nat_power)
  have nn: "0 \<le> x" unfolding x_def by simp
  have "size_t_of_int n mod batch_size = 0 \<longleftrightarrow> batch_size dvd nat x"
    by (simp only: size_t_of_int_def x_def dvd_eq_mod_eq_0)
  also have "\<dots> \<longleftrightarrow> int batch_size dvd int (nat x)"
    by (simp only: int_dvd_int_iff)
  also have "\<dots> \<longleftrightarrow> int batch_size dvd x"
    using nn by simp
  also have "\<dots> \<longleftrightarrow> int batch_size dvd n"
    unfolding x_def using d by (rule dvd_mod_iff)
  finally show ?thesis .
qed

text \<open>
  Claim C3, as stated, at the ultimate variant with lane width 4, three paths and an arena
  whose offset is 8: the call fails with the configuration error, and the arena it leaves
  has offset 0, not the offset 8 that it was passed with.
\<close>

theorem ultimate_resets_arena_counterexample:
  "\<not> (4::int) dvd 3
 \<and> price_american_put_lsm_ultimate 4 (\<lambda>i j. fl 0) \<lparr>memory_size = 1024, offset = 8\<rparr>
       (fl 100) (fl 105) (fl 1) (fl (1 / 20)) (fl (1 / 5)) 3 10 42
     = (Inl ConfigurationError, \<lparr>memory_size = 1024, offset = 0\<rparr>)
 \<and> \<lparr>memory_size = 1024, offset = 0\<rparr> \<noteq> \<lparr>memory_size = 1024, offset = (8 :: 64 word)\<rparr>"
  by (simp add: price_american_put_lsm_ultimate_def reset_def size_t_of_int_def)

text \<open>
  Claim C3, amended: for every input whose \<open>num_paths\<close> is not divisible by the lane width
  (a divisor of \<open>2 ^ 64\<close>), the SIMD and ultimate variants fail with the declared
  ConfigurationError before any allocation or simulation; the ultimate variant has reset
  the passed-in arena before the check, so the arena it leaves is the given one with
  offset 0.
\<close>

theorem lane_width_rejected:
  assumes "batch_size dvd 2 ^ 64" and "\<not> int batch_size dvd num_paths"
  shows "price_american_put_lsm_simd batch_size rng S0 K T r sigma num_paths num_steps seed
           = Inl ConfigurationError
       \<and> price_american_put_lsm_ultimate batch_size draw arena S0 K T r sigma num_paths num_steps seed
           = (Inl ConfigurationError, arena\<lparr>offset := 0\<rparr>)"
  using assms size_t_mod_lane [of batch_size num_paths]
  by (simp add: price_american_put_lsm_simd_def price_american_put_lsm_ultimate_def reset_def Let_def)

theorem lane_width_rejected_witness:
  "price_american_put_lsm_simd 4 (\<lambda>seed k. fl 0) (fl 100) (fl 105) (fl 1) (fl 0) (fl 0) 6 5 42
     = Inl ConfigurationError
 \<and> price_american_put_lsm_ultimate 4 (\<lambda>i j. fl 0) \<lparr>memory_size = 64, offset = 24\<rparr>
       (fl 100) (fl 105) (fl 1) (fl 0) (fl 0) 6 5 42
     = (Inl ConfigurationError, \<lparr>memory_size = 64, offset = 0\<rparr>)"
proof -
  have d: "(4::nat) dvd 2 ^ 64" 
    by (rule dvd_trans [of 4 "2 ^ 2"]) (simp_all add: le_imp_power_dvd)
  have n: "\<not> int 4 dvd 6" by presburger
  show ?thesis
    using lane_width_rejected [OF d n, where rng = "\<lambda>seed k. fl 0" and draw = "\<lambda>i j. fl 0"
        and arena = "\<lparr>memory_size = 64, offset = 24\<rparr>" and ?S0.0 = "fl 100" and K = "fl 105"
        and T = "fl 1" and r = "fl 0" and sigma = "fl 0" and num_steps = 5 and seed = 42]
    by simp
qed

section \<open>One time step\<close>

lemma terminal_payoff_rd:
  assumes law: "lawful L ok N M" and i: "i < N"
  shows "rd L (terminal_payoff L K S N M (create L N (Suc M))) i M = std_max 0 (K - rd L S i M)"
proof -
  have cells: "\<And>c. c \<in> set [0..<N] \<Longrightarrow> c < N \<and> M \<le> M" by simp
  note fw = fold_writes [where cs = "[0..<N]" and row = "\<lambda>c. c" and col = "\<lambda>c. M"
      and g = "\<lambda>i. std_max 0 (K - rd L S i M)", OF law lawful_ok_create [OF law] cells]
  show ?thesis
    unfolding terminal_payoff_def using i by (intro fw(3) [of i M i]) auto
qed

lemma no_interior_dates: "interior_dates (Suc 0) = []"
  by (simp add: interior_dates_def)

lemma cash_flow_table_one_step:
  "cash_flow_table L K r dt S N (Suc 0) = terminal_payoff L K S N (Suc 0) (create L N (Suc (Suc 0)))"
  by (simp add: cash_flow_table_def backward_induction_def no_interior_dates)

lemma first_payoff_one_step:
  "first_payoff_from L r dt cf (Suc 0) i (Suc 0) =
     (if 0 < rd L cf i (Suc 0) then Some (rd L cf i (Suc 0) * exp_dbl (- r * dt)) else None)"
proof -
  have "first_payoff_from L r dt cf (Suc 0) i (Suc (Suc 0)) = None"
    by (subst first_payoff_from.simps) simp
  then show ?thesis
    by (subst first_payoff_from.simps) (simp add: double_of_int_def times_one_dbl)
qed

lemma first_payoff_table_one_step:
  assumes law: "lawful L ok N (Suc 0)" and i: "i < N"
  shows "first_payoff_from L r dt (cash_flow_table L K r dt S N (Suc 0)) (Suc 0) i (Suc 0) =
     (if 0 < std_max 0 (K - rd L S i (Suc 0))
      then Some (std_max 0 (K - rd L S i (Suc 0)) * exp_dbl (- r * dt)) else None)"
  unfolding first_payoff_one_step cash_flow_table_one_step terminal_payoff_rd [OF law i] ..



lemma one_step_dt: "T / double_of_int 1 = T"
  by (cases T rule: dbl_cases) (simp_all add: double_of_int_def)

text \<open>The lattice of one path and one step.\<close>

lemma one_path_one_step:
  "rd path_major (simulate_paths path_major Z S0 r sigma dt (Suc 0) (Suc 0)) 0 (Suc 0)
     = gbm_update S0 r sigma dt (Z 0)"
proof -
  have "follows_gbm path_major (simulate_paths path_major Z S0 r sigma dt (Suc 0) (Suc 0))
          (\<lambda>i j. Z (i * Suc 0 + (j - 1))) S0 r sigma dt (Suc 0) (Suc 0)"
    by (rule simulate_paths_follows [OF lawful_path_major])
  then show ?thesis by (simp add: follows_gbm_def)
qed



lemma demo_valid: "valid_configuration (fl 100) (fl 105) (fl 1) (fl 0) (fl 0) 2 1"
  by (simp add: valid_configuration_def zero_dbl_def)



section \<open>Values of the cash-flow table\<close>

lemma terminal_payoff_rd_all:
  assumes law: "lawful L ok N M" and i: "i < N" and j: "j \<le> M"
  shows "rd L (terminal_payoff L K S N M (create L N (Suc M))) i j
           = (if j = M then std_max 0 (K - rd L S i M) else 0)"
proof (cases "j = M")
  case True
  then show ?thesis using terminal_payoff_rd [OF law i] by simp
next
  case False
  have cells: "\<And>c. c \<in> set [0..<N] \<Longrightarrow> c < N \<and> M \<le> M" by simp
  note fw = fold_writes [where cs = "[0..<N]" and row = "\<lambda>c. c" and col = "\<lambda>c. M"
      and g = "\<lambda>i. std_max 0 (K - rd L S i M)", OF law lawful_ok_create [OF law] cells]
  have "rd L (terminal_payoff L K S N M (create L N (Suc M))) i j = rd L (create L N (Suc M)) i j"
    unfolding terminal_payoff_def using i j False by (intro fw(2)) auto
  then show ?thesis using False lawful_rd_create [OF law i j] by simp
qed

text \<open>
  One exercise decision on an in-the-money path at a date \<open>t \<ge> 1\<close> keeps the entries
  within a set of values that holds 0 and every intrinsic value, and keeps every paying
  path paying.
\<close>

lemma exercise_decision_keeps:
  assumes law: "lawful L ok N M" and t: "1 \<le> t" "t \<le> M" and n: "itm ! n < N"
    and itm: "0 < K - rd L S (itm ! n) t"
    and P0: "P 0" and Pv: "\<And>i t. i < N \<Longrightarrow> t \<le> M \<Longrightarrow> P (std_max 0 (K - rd L S i t))"
    and pre: "ok cf \<and> entries_satisfy L N M P cf \<and> (\<forall>i<N. i \<in> A \<longrightarrow> pays L M cf i)"
  shows "ok (exercise_decision L K S M t coeffs itm xs n cf)
       \<and> entries_satisfy L N M P (exercise_decision L K S M t coeffs itm xs n cf)
       \<and> (\<forall>i<N. i \<in> A \<longrightarrow> pays L M (exercise_decision L K S M t coeffs itm xs n cf) i)"
proof (cases "coeffs ! 0 * xs ! n * xs ! n + coeffs ! 1 * xs ! n + coeffs ! 2
                < std_max 0 (K - rd L S (itm ! n) t)")
  case False
  then show ?thesis using pre by (simp add: exercise_decision_def Let_def)
next
  case True
  let ?v = "std_max 0 (K - rd L S (itm ! n) t)"
  let ?cf = "exercise L M (itm ! n) t ?v cf"
  have e: "exercise_decision L K S M t coeffs itm xs n cf = ?cf"
    using True by (simp add: exercise_decision_def Let_def)
  have okcf: "ok cf" using pre by simp
  note rd = exercise_rd(2) [OF law okcf n t(2), of _ _ ?v]
  have v: "?v = K - rd L S (itm ! n) t" using itm by (simp add: std_max_def)
  have pos: "0 < ?v" unfolding v by (rule itm)
  have "ok ?cf" by (rule exercise_rd(1) [OF law okcf n t(2)])
  moreover have "entries_satisfy L N M P ?cf"
    unfolding entries_satisfy_def
  proof (intro allI impI)
    fix i j assume i: "i < N" and j: "j \<le> M"
    have "P (rd L cf i j)" using pre i j by (simp add: entries_satisfy_def)
    moreover have "P ?v" by (rule Pv [OF n t(2)])
    ultimately show "P (rd L ?cf i j)" using rd [OF i j] P0 by auto
  qed
  moreover have "\<forall>i<N. i \<in> A \<longrightarrow> pays L M ?cf i"
  proof (intro allI impI)
    fix i assume i: "i < N" and a: "i \<in> A"
    show "pays L M ?cf i"
    proof (cases "i = itm ! n")
      case True
      have "rd L ?cf i t = ?v" using rd [OF i t(2)] True by simp
      then show ?thesis using pos t unfolding pays_def by auto
    next
      case False
      obtain j where j: "1 \<le> j" "j \<le> M" "0 < rd L cf i j"
        using pre i a unfolding pays_def by blast
      have "rd L ?cf i j = rd L cf i j" using rd [OF i j(2)] False by simp
      then show ?thesis using j unfolding pays_def by auto
    qed
  qed
  ultimately show ?thesis unfolding e by simp
qed

lemma in_the_money_paths_pos:
  "n < length (in_the_money_paths L K S N t) \<Longrightarrow> 0 < K - rd L S (in_the_money_paths L K S N t ! n) t"
proof -
  assume "n < length (in_the_money_paths L K S N t)"
  then have "in_the_money_paths L K S N t ! n \<in> set (in_the_money_paths L K S N t)" by simp
  then show ?thesis by (simp add: in_the_money_paths_def)
qed

lemma backward_step_keeps:
  assumes law: "lawful L ok N M" and t: "1 \<le> t" "t < M"
    and P0: "P 0" and Pv: "\<And>i t. i < N \<Longrightarrow> t \<le> M \<Longrightarrow> P (std_max 0 (K - rd L S i t))"
    and pre: "ok cf \<and> entries_satisfy L N M P cf \<and> (\<forall>i<N. i \<in> A \<longrightarrow> pays L M cf i)"
  shows "ok (backward_step L K r dt S N M t cf)
       \<and> entries_satisfy L N M P (backward_step L K r dt S N M t cf)
       \<and> (\<forall>i<N. i \<in> A \<longrightarrow> pays L M (backward_step L K r dt S N M t cf) i)"
proof -
  let ?itm = "in_the_money_paths L K S N t"
  have "ok (exercise_update L K S M t coeffs ?itm xs cf)
      \<and> entries_satisfy L N M P (exercise_update L K S M t coeffs ?itm xs cf)
      \<and> (\<forall>i<N. i \<in> A \<longrightarrow> pays L M (exercise_update L K S M t coeffs ?itm xs cf) i)" for coeffs xs
    unfolding exercise_update_def
  proof (rule fold_invariant [where P = "\<lambda>cf. ok cf \<and> entries_satisfy L N M P cf
        \<and> (\<forall>i<N. i \<in> A \<longrightarrow> pays L M cf i)"])
    fix n s assume n: "n \<in> set [0..<length ?itm]"
      and s: "ok s \<and> entries_satisfy L N M P s \<and> (\<forall>i<N. i \<in> A \<longrightarrow> pays L M s i)"
    have lt: "?itm ! n < N" using n in_the_money_paths_less by simp
    have pos: "0 < K - rd L S (?itm ! n) t" using n in_the_money_paths_pos by simp
    have le: "t \<le> M" using t by simp
    show "ok (exercise_decision L K S M t coeffs ?itm xs n s)
       \<and> entries_satisfy L N M P (exercise_decision L K S M t coeffs ?itm xs n s)
       \<and> (\<forall>i<N. i \<in> A \<longrightarrow> pays L M (exercise_decision L K S M t coeffs ?itm xs n s) i)"
      by (rule exercise_decision_keeps [OF law t(1) le lt pos P0 Pv s])
  qed (rule pre)
  then show ?thesis using pre by (simp add: backward_step_def Let_def)
qed

lemma cash_flow_table_keeps:
  assumes law: "lawful L ok N M" and M: "1 \<le> M"
    and P0: "P 0" and Pv: "\<And>i t. i < N \<Longrightarrow> t \<le> M \<Longrightarrow> P (std_max 0 (K - rd L S i t))"
  shows "entries_satisfy L N M P (cash_flow_table L K r dt S N M)"
    and "\<And>i. i < N \<Longrightarrow> 0 < std_max 0 (K - rd L S i M) \<Longrightarrow> pays L M (cash_flow_table L K r dt S N M) i"
proof -
  let ?A = "{i. 0 < std_max 0 (K - rd L S i M)}"
  let ?c0 = "terminal_payoff L K S N M (create L N (Suc M))"
  have ok0: "ok ?c0" using terminal_payoff_inv(1) [OF law] .
  have e0: "entries_satisfy L N M P ?c0"
    unfolding entries_satisfy_def
    using terminal_payoff_rd_all [OF law, of _ _ K S] P0 Pv by simp
  have p0: "\<forall>i<N. i \<in> ?A \<longrightarrow> pays L M ?c0 i"
  proof (intro allI impI)
    fix i assume i: "i < N" and a: "i \<in> ?A"
    have "rd L ?c0 i M = std_max 0 (K - rd L S i M)" by (rule terminal_payoff_rd [OF law i])
    then show "pays L M ?c0 i" using a M unfolding pays_def by auto
  qed
  have "ok (cash_flow_table L K r dt S N M)
      \<and> entries_satisfy L N M P (cash_flow_table L K r dt S N M)
      \<and> (\<forall>i<N. i \<in> ?A \<longrightarrow> pays L M (cash_flow_table L K r dt S N M) i)"
    unfolding cash_flow_table_def backward_induction_def
  proof (rule fold_invariant [where P = "\<lambda>cf. ok cf \<and> entries_satisfy L N M P cf
        \<and> (\<forall>i<N. i \<in> ?A \<longrightarrow> pays L M cf i)"])
    fix t s assume t: "t \<in> set (interior_dates M)"
      and s: "ok s \<and> entries_satisfy L N M P s \<and> (\<forall>i<N. i \<in> ?A \<longrightarrow> pays L M s i)"
    have t1: "1 \<le> t" and t2: "t < M" using t by (simp_all add: interior_dates_def)
    show "ok (backward_step L K r dt S N M t s)
       \<and> entries_satisfy L N M P (backward_step L K r dt S N M t s)
       \<and> (\<forall>i<N. i \<in> ?A \<longrightarrow> pays L M (backward_step L K r dt S N M t s) i)"
      by (rule backward_step_keeps [OF law t1 t2 P0 Pv s])
  qed (use ok0 e0 p0 in simp)
  then show "entries_satisfy L N M P (cash_flow_table L K r dt S N M)"
    and "\<And>i. i < N \<Longrightarrow> 0 < std_max 0 (K - rd L S i M) \<Longrightarrow> pays L M (cash_flow_table L K r dt S N M) i"
    by simp_all
qed

section \<open>Sign of the price\<close>

lemma nonneg_not_neg: "(0::dbl) \<le> w \<Longrightarrow> \<not> w < 0"
  by (cases w rule: dbl_cases) (simp_all add: zero_dbl_def)

lemma nonneg_add_dbl: "(0::dbl) \<le> a \<Longrightarrow> 0 \<le> b \<Longrightarrow> 0 \<le> a + b"
  by (cases a rule: dbl_cases; cases b rule: dbl_cases) (simp_all add: zero_dbl_def fl_nonneg)

lemma not_neg_times: "\<not> a < 0 \<Longrightarrow> \<not> b < 0 \<Longrightarrow> \<not> a * b < (0::dbl)"
proof (cases a rule: dbl_cases; cases b rule: dbl_cases)
  fix x y assume a: "a = fl x" "is_double x" and b: "b = fl y" "is_double y"
    and h: "\<not> a < 0" "\<not> b < 0"
  then have "0 \<le> x * y" by (simp add: zero_dbl_def)
  then have "(0::dbl) \<le> a * b" using a b by (simp add: zero_dbl_def fl_nonneg)
  then show "\<not> a * b < 0" by (rule nonneg_not_neg)
qed (simp_all add: zero_dbl_def)

lemma exp_not_neg: "\<not> exp_dbl y < 0"
proof (cases y rule: dbl_cases)
  case (Fin x)
  have "(0::dbl) \<le> exp_dbl y" unfolding Fin(1) using Fin(2) by (simp add: zero_dbl_def fl_nonneg)
  then show ?thesis by (rule nonneg_not_neg)
qed (simp_all add: zero_dbl_def)

lemma gbm_update_not_neg: "\<not> s < 0 \<Longrightarrow> \<not> gbm_update s r sigma dt z < 0"
  unfolding gbm_update_def by (intro not_neg_times exp_not_neg)

lemma lattice_not_neg:
  assumes f: "follows_gbm L S draw S0 r sigma dt N M" and s: "0 \<le> S0" and i: "i < N"
  shows "j \<le> M \<Longrightarrow> \<not> rd L S i j < 0"
proof (induction j)
  case 0
  have "rd L S i 0 = S0" using f i by (simp add: follows_gbm_def)
  then show ?case using s by (simp add: nonneg_not_neg)
next
  case (Suc j)
  have "rd L S i (Suc j) = gbm_update (rd L S i j) r sigma dt (draw i (Suc j))"
    using f i Suc.prems by (simp add: follows_gbm_def)
  moreover have "\<not> rd L S i j < 0" using Suc by simp
  ultimately show ?case by (simp add: gbm_update_not_neg)
qed

lemma payoff_finite_nonneg:
  assumes K: "is_finite K" and s: "\<not> s < 0"
  shows "is_finite (std_max 0 (K - s)) \<and> 0 \<le> std_max 0 (K - s)"
proof -
  have "is_finite (std_max 0 (K - s))"
  proof (cases K rule: dbl_cases)
    case K: (Fin k)
    show ?thesis
    proof (cases s rule: dbl_cases)
      case (Fin x)
      then have x: "0 \<le> x" using s by (simp add: zero_dbl_def)
      have e: "K - s = fl (k - x)" using K Fin by simp
      have le: "fl (k - x) \<le> fl k" using x K(2) by (intro fl_le_double) simp_all
      show ?thesis
      proof (cases "k - x" rule: fl_cases)
        case (Fin y)
        then show ?thesis unfolding e by (simp add: std_max_def zero_dbl_def)
      next
        case PInf
        then show ?thesis using le K(2) by simp
      next
        case MInf
        then show ?thesis unfolding e by (simp add: std_max_def zero_dbl_def)
      qed
    next
      case PInf
      then show ?thesis using K by (simp add: std_max_def zero_dbl_def minus_dbl_def)
    next
      case MInf
      then show ?thesis using s by (simp add: zero_dbl_def)
    next
      case NaN
      then show ?thesis by (simp add: std_max_def zero_dbl_def)
    qed
  qed (use K in simp_all)
  then show ?thesis using std_max_nonneg by simp
qed

lemma is_finite_double_of_int: "\<bar>n\<bar> \<le> 2 ^ 53 \<Longrightarrow> is_finite (double_of_int n)"
  by (simp add: double_of_int_def is_double_of_int)

lemma times_pos_not_nan:
  assumes "w \<noteq> NaN" and "is_finite d" and "0 < d"
  shows "w * d \<noteq> NaN"
  using assms by (cases w rule: dbl_cases; cases d rule: dbl_cases) (simp_all add: zero_dbl_def)

lemma finite_times_not_nan: "is_finite a \<Longrightarrow> is_finite b \<Longrightarrow> a * b \<noteq> NaN"
  by (cases a rule: dbl_cases; cases b rule: dbl_cases) simp_all

lemma is_finite_uminus: "is_finite a \<Longrightarrow> is_finite (- a)"
  by (cases a rule: dbl_cases) simp_all

lemma exp_nonneg_dbl: "x \<noteq> NaN \<Longrightarrow> 0 \<le> exp_dbl x"
  by (cases x rule: dbl_cases) (simp_all add: zero_dbl_def fl_nonneg)

lemma discount_nonneg:
  assumes r: "is_finite r" and dt: "is_finite dt" and pos: "0 < dt" and j: "int j \<le> 2 ^ 53"
  shows "0 \<le> exp_dbl (- r * double_of_int (int j) * dt)"
proof -
  have "is_finite (double_of_int (int j))" using j by (intro is_finite_double_of_int) simp
  then have "- r * double_of_int (int j) \<noteq> NaN"
    using r by (intro finite_times_not_nan is_finite_uminus)
  then have "- r * double_of_int (int j) * dt \<noteq> NaN" using dt pos by (rule times_pos_not_nan)
  then show ?thesis by (rule exp_nonneg_dbl)
qed

lemma pos_finite_times_nonneg: "(0::dbl) < c \<Longrightarrow> is_finite c \<Longrightarrow> 0 \<le> e \<Longrightarrow> 0 \<le> c * e"
proof (cases c rule: dbl_cases; cases e rule: dbl_cases)
  fix x y assume c: "c = fl x" "is_double x" and e: "e = fl y" "is_double y"
    and h: "0 < c" "0 \<le> e"
  then have "0 \<le> x * y" by (simp add: zero_dbl_def)
  then show "0 \<le> c * e" using c e by (simp add: zero_dbl_def fl_nonneg)
qed (simp_all add: zero_dbl_def)

lemma first_payoff_from_nonneg:
  assumes r: "is_finite r" and dt: "is_finite dt" and pos: "0 < dt" and M: "int M \<le> 2 ^ 53"
    and fin: "\<forall>j\<le>M. is_finite (rd L cf i j)"
    and p: "first_payoff_from L r dt cf M i j = Some p"
  shows "0 \<le> p"
  using p
proof (induction "Suc M - j" arbitrary: j)
  case 0
  then have "M < j" by simp
  then have "first_payoff_from L r dt cf M i j = None" by (subst first_payoff_from.simps) simp
  then show ?case using "0.prems" by simp
next
  case (Suc d)
  then have le: "\<not> M < j" by simp
  show ?case
  proof (cases "0 < rd L cf i j")
    case True
    have "int j \<le> 2 ^ 53" using le M by simp
    then have e: "0 \<le> exp_dbl (- r * double_of_int (int j) * dt)" by (rule discount_nonneg [OF r dt pos])
    have f: "is_finite (rd L cf i j)" using fin le by simp
    have "first_payoff_from L r dt cf M i j
            = Some (rd L cf i j * exp_dbl (- r * double_of_int (int j) * dt))"
      using True le by (subst first_payoff_from.simps) simp
    then have "p = rd L cf i j * exp_dbl (- r * double_of_int (int j) * dt)"
      using Suc.prems by simp
    then show ?thesis using pos_finite_times_nonneg [OF True f e] by simp
  next
    case False
    have "first_payoff_from L r dt cf M i j = first_payoff_from L r dt cf M i (Suc j)"
      using False le by (subst first_payoff_from.simps) simp
    then have "first_payoff_from L r dt cf M i (Suc j) = Some p" using Suc.prems by simp
    moreover have "d = Suc M - Suc j" using Suc.hyps(2) by simp
    ultimately show ?thesis by (rule Suc.hyps(1) [rotated])
  qed
qed

lemma total_payoff_nonneg:
  assumes r: "is_finite r" and dt: "is_finite dt" and pos: "0 < dt" and M: "int M \<le> 2 ^ 53"
    and fin: "entries_satisfy L N M is_finite cf"
  shows "0 \<le> total_payoff L r dt cf N M"
  unfolding total_payoff_def
proof (rule fold_invariant [where P = "\<lambda>s. 0 \<le> s"])
  fix i s assume i: "i \<in> set [0..<N]" and s: "(0::dbl) \<le> s"
  have f: "\<forall>j\<le>M. is_finite (rd L cf i j)" using fin i by (simp add: entries_satisfy_def)
  show "0 \<le> (case first_payoff_from L r dt cf M i 1 of None \<Rightarrow> s | Some p \<Rightarrow> s + p)"
  proof (cases "first_payoff_from L r dt cf M i 1")
    case None
    then show ?thesis using s by simp
  next
    case (Some p)
    then show ?thesis
      using nonneg_add_dbl [OF s first_payoff_from_nonneg [OF r dt pos M f Some]] by simp
  qed
qed (rule zero_le_zero_dbl)

lemma nonneg_div_dbl: "(0::dbl) \<le> s \<Longrightarrow> 1 \<le> n \<Longrightarrow> n \<le> 2 ^ 53 \<Longrightarrow> 0 \<le> s / double_of_int n"
proof -
  assume s: "(0::dbl) \<le> s" and n: "1 \<le> n" "n \<le> 2 ^ 53"
  have d: "is_double (of_int n)" using n by (intro is_double_of_int) simp
  show ?thesis
  proof (cases s rule: dbl_cases)
    case (Fin x)
    then have "0 \<le> x / of_int n" using s n by (simp add: zero_dbl_def)
    then show ?thesis using Fin d n by (simp add: double_of_int_def zero_dbl_def fl_nonneg)
  qed (use s d n in \<open>simp_all add: double_of_int_def zero_dbl_def\<close>)
qed

lemma lsm_price_nonneg:
  assumes law: "lawful L ok (nat num_paths) (nat num_steps)"
    and r: "is_finite r" and dt: "is_finite dt" and pos: "0 < dt" and K: "is_finite K"
    and n: "1 \<le> num_paths" "num_paths \<le> 2 ^ 53" and m: "1 \<le> num_steps" "num_steps \<le> 2 ^ 53"
    and S: "\<forall>i<nat num_paths. \<forall>j\<le>nat num_steps. \<not> rd L S i j < 0"
  shows "0 \<le> lsm_price L K r dt S num_paths num_steps"
proof -
  have M1: "1 \<le> nat num_steps" and M2: "int (nat num_steps) \<le> 2 ^ 53" using m by simp_all
  have "entries_satisfy L (nat num_paths) (nat num_steps) is_finite
          (cash_flow_table L K r dt S (nat num_paths) (nat num_steps))"
  proof (rule cash_flow_table_keeps(1) [OF law M1])
    show "is_finite 0" by (simp add: zero_dbl_def)
    show "is_finite (std_max 0 (K - rd L S i t))" if "i < nat num_paths" "t \<le> nat num_steps" for i t
      using payoff_finite_nonneg [OF K] S that by simp
  qed
  then have "0 \<le> total_payoff L r dt (cash_flow_table L K r dt S (nat num_paths) (nat num_steps))
                  (nat num_paths) (nat num_steps)"
    by (rule total_payoff_nonneg [OF r dt pos M2])
  then show ?thesis unfolding lsm_price_def using n by (rule nonneg_div_dbl)
qed

lemma size_t_of_int_nat: "0 \<le> n \<Longrightarrow> int_value n \<Longrightarrow> size_t_of_int n = nat n"
  by (simp add: size_t_of_int_def int_value_def)

lemma lane_divides:
  assumes "size_t_of_int num_paths mod batch_size = 0" and "1 \<le> num_paths" and "int_value num_paths"
  shows "0 < batch_size" and "batch_size dvd nat num_paths"
proof -
  have e: "nat num_paths mod batch_size = 0"
    using assms size_t_of_int_nat [of num_paths] by simp
  show "0 < batch_size"
  proof (rule ccontr)
    assume "\<not> 0 < batch_size"
    then show False using e assms(2) by simp
  qed
  show "batch_size dvd nat num_paths" using e by (simp add: dvd_eq_mod_eq_0)
qed

lemma price_simd_lane:
  "price_american_put_lsm_simd batch_size rng S0 K T r sigma num_paths num_steps seed = Inr p
   \<Longrightarrow> size_t_of_int num_paths mod batch_size = 0"
  by (simp add: price_american_put_lsm_simd_def split: if_splits)

lemma price_ultimate_lane:
  "fst (price_american_put_lsm_ultimate batch_size draw arena S0 K T r sigma num_paths num_steps seed) = Inr p
   \<Longrightarrow> size_t_of_int num_paths mod batch_size = 0"
  by (simp add: price_american_put_lsm_ultimate_def Let_def split: if_splits)

lemma is_finite_dt:
  assumes T: "is_finite T" and n: "1 \<le> n"
  shows "is_finite (T / double_of_int n)"
proof (cases T rule: dbl_cases)
  case (Fin t)
  have one: "round_real 1 = 1" using is_double_1 by (simp add: is_double_def)
  show ?thesis
  proof (cases "of_int n :: real" rule: fl_cases)
    case F: (Fin y)
    have y: "1 \<le> y" unfolding F(3) [symmetric] using n by (intro round_real_ge [OF one]) simp
    have b: "- \<bar>t\<bar> \<le> t / y" "t / y \<le> \<bar>t\<bar>"
    proof -
      have "\<bar>t\<bar> * 1 \<le> \<bar>t\<bar> * y" using y by (intro mult_left_mono) simp_all
      then have "\<bar>t / y\<bar> \<le> \<bar>t\<bar>" using y by (simp add: abs_divide field_simps)
      then show "- \<bar>t\<bar> \<le> t / y" "t / y \<le> \<bar>t\<bar>" by linarith+
    qed
    have d: "is_double \<bar>t\<bar>" "is_double (- \<bar>t\<bar>)" using Fin(2) by (simp_all add: abs_if)
    have "fl (- \<bar>t\<bar>) \<le> fl (t / y)" "fl (t / y) \<le> fl \<bar>t\<bar>"
      using b d by (simp_all only: fl_le_double fl_ge_double)
    then have "is_finite (fl (t / y))" using d by (cases "t / y" rule: fl_cases) simp_all
    then show ?thesis using Fin F y by (simp add: double_of_int_def)
  next
    case PInf
    then show ?thesis using Fin by (simp add: double_of_int_def)
  next
    case MInf
    have "0 \<le> round_real (of_int n)" using n by (intro round_real_nonneg) simp
    then show ?thesis using MInf(2) pow2_pos [of 1024] by linarith
  qed
qed (use T in simp_all)

text \<open>
  Claim C10, as stated, at one path and one step with \<open>S0 = -1\<close>, \<open>K = 105\<close>, \<open>T = 1\<close>,
  \<open>r = 2000\<close> and \<open>sigma = 0\<close>, a valid configuration: \<open>exp(2000)\<close> overflows, the terminal
  price is \<open>-\<infinity>\<close> and the terminal payoff \<open>\<infinity>\<close>, the discount factor \<open>exp(-2000)\<close>
  underflows to 0, and the price is \<open>\<infinity> \<cdot> 0\<close>, a NaN.
\<close>

theorem negative_spot_counterexample:
  "valid_configuration (fl (- 1)) (fl 105) (fl 1) (fl 2000) (fl 0) 1 1
 \<and> price_american_put_lsm_cpp (\<lambda>seed k. fl 0) (fl (- 1)) (fl 105) (fl 1) (fl 2000) (fl 0) 1 1 42
     = Inr NaN
 \<and> \<not> (0::dbl) \<le> NaN"
proof -
  define S where "S = simulate_paths path_major (\<lambda>k. fl 0) (fl (- 1)) (fl 2000) (fl 0) (fl 1)
    (Suc 0) (Suc 0)"
  have s: "rd path_major S 0 (Suc 0) = MInf"
    unfolding S_def one_path_one_step
    by (simp add: gbm_update_def minus_dbl_def exp_2000_overflow)
  have v: "std_max 0 (fl 105 - rd path_major S 0 (Suc 0)) = PInf"
    unfolding s by (simp add: std_max_def zero_dbl_def minus_dbl_def)
  have fp: "first_payoff_from path_major (fl 2000) (fl 1)
              (cash_flow_table path_major (fl 105) (fl 2000) (fl 1) S (Suc 0) (Suc 0)) (Suc 0) 0 (Suc 0)
            = Some NaN"
    using first_payoff_table_one_step [OF lawful_path_major, of 0 "Suc 0" "fl 2000" "fl 1" "fl 105" S] v
    by (simp add: zero_dbl_def exp_2000_underflow)
  have code: "price_american_put_lsm_cpp (\<lambda>seed k. fl 0) (fl (- 1)) (fl 105) (fl 1) (fl 2000) (fl 0) 1 1 42
     = Inr NaN"
    unfolding price_cpp_Inr [of 1 1, simplified] one_step_dt
    using fp by (simp add: lsm_price_def total_payoff_def S_def)
  have valid: "valid_configuration (fl (- 1)) (fl 105) (fl 1) (fl 2000) (fl 0) 1 1"
    by (simp add: valid_configuration_def zero_dbl_def)
  show ?thesis using valid code by simp
qed

lemma cash_flow_table_nonneg:
  assumes law: "lawful L ok N M" and i: "i < N" and j: "j \<le> M"
  shows "0 \<le> rd L (cash_flow_table L K r dt S N M) i j"
  using cash_flow_table_inv(2) [OF law, of K r dt S] i j unfolding table_inv_def by blast

text \<open>
  Claim C10, amended. For a valid configuration with a spot price \<open>S0 \<ge> 0\<close> and a time
  step \<open>dt = T / num_steps\<close> that is positive in floating point, the price that any of the
  five entry points returns is neither negative nor NaN. Every entry of the cash-flow table
  is neither negative nor NaN in each of the three layouts, for any configuration and any
  price lattice.
\<close>

theorem price_nonnegative:
  assumes "valid_configuration S0 K T r sigma num_paths num_steps"
    and "int_value num_paths" and "int_value num_steps"
    and "0 \<le> S0" and "0 < T / double_of_int num_steps"
  shows "(price_american_put_lsm_cpp rng S0 K T r sigma num_paths num_steps seed = Inr p1 \<longrightarrow> 0 \<le> p1)
   \<and> (fst (price_american_put_lsm_arena rng arena S0 K T r sigma num_paths num_steps seed) = Inr p2
        \<longrightarrow> 0 \<le> p2)
   \<and> (fst (price_american_put_lsm_mp draw arena S0 K T r sigma num_paths num_steps seed) = Inr p3
        \<longrightarrow> 0 \<le> p3)
   \<and> (price_american_put_lsm_simd batch_size rng S0 K T r sigma num_paths num_steps seed = Inr p4
        \<longrightarrow> 0 \<le> p4)
   \<and> (fst (price_american_put_lsm_ultimate batch_size draw arena S0 K T r sigma num_paths num_steps seed)
          = Inr p5 \<longrightarrow> 0 \<le> p5)
   \<and> (\<forall>i<nat num_paths. \<forall>j\<le>nat num_steps.
          0 \<le> rd path_major (cash_flow_table path_major K r (T / double_of_int num_steps) S1
                               (nat num_paths) (nat num_steps)) i j
        \<and> 0 \<le> rd (flat (nat num_steps)) (cash_flow_table (flat (nat num_steps)) K r
                               (T / double_of_int num_steps) S2 (nat num_paths) (nat num_steps)) i j
        \<and> 0 \<le> rd time_major (cash_flow_table time_major K r (T / double_of_int num_steps) S3
                               (nat num_paths) (nat num_steps)) i j)"
proof -
  let ?dt = "T / double_of_int num_steps"
  let ?N = "nat num_paths" and ?M = "nat num_steps"
  have r: "is_finite r" and K: "is_finite K" and n: "1 \<le> num_paths" and m: "1 \<le> num_steps"
    and dt: "is_finite ?dt"
    using assms(1) is_finite_dt [of T num_steps] by (simp_all add: valid_configuration_def)
  have n2: "num_paths \<le> 2 ^ 53" and m2: "num_steps \<le> 2 ^ 53"
    using assms(2,3) by (simp_all add: int_value_def)
  note pos = assms(5)
  have price: "0 \<le> lsm_price L K r ?dt S num_paths num_steps"
    if "lawful L ok ?N ?M" and "follows_gbm L S d S0 r sigma ?dt ?N ?M" for L ok S d
  proof (rule lsm_price_nonneg [OF that(1) r dt pos K n n2 m m2])
    show "\<forall>i<?N. \<forall>j\<le>?M. \<not> rd L S i j < 0"
      using lattice_not_neg [OF that(2) assms(4)] by simp
  qed
  show ?thesis
  proof (intro conjI impI allI)
    assume "price_american_put_lsm_cpp rng S0 K T r sigma num_paths num_steps seed = Inr p1"
    then show "0 \<le> p1"
      using price [OF lawful_path_major simulate_paths_follows [OF lawful_path_major]]
      by (auto dest!: price_cpp_InrD)
  next
    assume "fst (price_american_put_lsm_arena rng arena S0 K T r sigma num_paths num_steps seed) = Inr p2"
    then show "0 \<le> p2"
      using price [OF lawful_flat simulate_paths_follows [OF lawful_flat]]
      by (auto dest!: price_arena_InrD)
  next
    assume "fst (price_american_put_lsm_mp draw arena S0 K T r sigma num_paths num_steps seed) = Inr p3"
    then show "0 \<le> p3"
      using price [OF lawful_flat simulate_paths_omp_follows [OF lawful_flat]]
      by (auto dest!: price_mp_InrD)
  next
    assume a: "price_american_put_lsm_simd batch_size rng S0 K T r sigma num_paths num_steps seed = Inr p4"
    note l = lane_divides [OF price_simd_lane [OF a] n assms(2)]
    show "0 \<le> p4"
      using price [OF lawful_time_major simulate_simd_follows [OF lawful_time_major l]] a
      by (auto dest!: price_simd_InrD)
  next
    assume a: "fst (price_american_put_lsm_ultimate batch_size draw arena S0 K T r sigma num_paths num_steps seed)
          = Inr p5"
    note l = lane_divides [OF price_ultimate_lane [OF a] n assms(2)]
    show "0 \<le> p5"
      using price [OF lawful_time_major simulate_simd_omp_follows [OF lawful_time_major l]] a
      by (auto dest!: price_ultimate_InrD)
  next
    fix i j assume "i < nat num_paths" "j \<le> nat num_steps"
    then show "0 \<le> rd path_major (cash_flow_table path_major K r (T / double_of_int num_steps) S1
                               (nat num_paths) (nat num_steps)) i j"
      by (rule cash_flow_table_nonneg [OF lawful_path_major])
  next
    fix i j assume "i < nat num_paths" "j \<le> nat num_steps"
    then show "0 \<le> rd (flat (nat num_steps)) (cash_flow_table (flat (nat num_steps)) K r
                               (T / double_of_int num_steps) S2 (nat num_paths) (nat num_steps)) i j"
      by (rule cash_flow_table_nonneg [OF lawful_flat])
  next
    fix i j assume "i < nat num_paths" "j \<le> nat num_steps"
    then show "0 \<le> rd time_major (cash_flow_table time_major K r (T / double_of_int num_steps) S3
                               (nat num_paths) (nat num_steps)) i j"
      by (rule cash_flow_table_nonneg [OF lawful_time_major])
  qed
qed

lemma demo_range: "int_value 2" "int_value 1" "(0::dbl) \<le> fl 100" "0 < fl 1 / double_of_int 1"
  by (simp_all add: int_value_def zero_dbl_def double_of_int_def)

theorem price_nonnegative_witness:
  "(\<exists>p. price_american_put_lsm_cpp (\<lambda>seed k. fl 0) (fl 100) (fl 105) (fl 1) (fl 0) (fl 0) 2 1 42 = Inr p
        \<and> 0 \<le> p)
 \<and> (\<exists>p. fst (price_american_put_lsm_arena (\<lambda>seed k. fl 0) \<lparr>memory_size = 4096, offset = 16\<rparr>
             (fl 100) (fl 105) (fl 1) (fl 0) (fl 0) 2 1 42) = Inr p \<and> 0 \<le> p)
 \<and> (\<exists>p. fst (price_american_put_lsm_mp (\<lambda>i j. fl 0) \<lparr>memory_size = 4096, offset = 16\<rparr>
             (fl 100) (fl 105) (fl 1) (fl 0) (fl 0) 2 1 42) = Inr p \<and> 0 \<le> p)
 \<and> (\<exists>p. price_american_put_lsm_simd 2 (\<lambda>seed k. fl 0) (fl 100) (fl 105) (fl 1) (fl 0) (fl 0) 2 1 42
           = Inr p \<and> 0 \<le> p)
 \<and> (\<exists>p. fst (price_american_put_lsm_ultimate 2 (\<lambda>i j. fl 0) \<lparr>memory_size = 4096, offset = 16\<rparr>
             (fl 100) (fl 105) (fl 1) (fl 0) (fl 0) 2 1 42) = Inr p \<and> 0 \<le> p)"
proof -
  obtain p1 p2 p3 p4 p5 where p:
    "price_american_put_lsm_cpp (\<lambda>seed k. fl 0) (fl 100) (fl 105) (fl 1) (fl 0) (fl 0) 2 1 42 = Inr p1"
    "fst (price_american_put_lsm_arena (\<lambda>seed k. fl 0) \<lparr>memory_size = 4096, offset = 16\<rparr>
             (fl 100) (fl 105) (fl 1) (fl 0) (fl 0) 2 1 42) = Inr p2"
    "fst (price_american_put_lsm_mp (\<lambda>i j. fl 0) \<lparr>memory_size = 4096, offset = 16\<rparr>
             (fl 100) (fl 105) (fl 1) (fl 0) (fl 0) 2 1 42) = Inr p3"
    "price_american_put_lsm_simd 2 (\<lambda>seed k. fl 0) (fl 100) (fl 105) (fl 1) (fl 0) (fl 0) 2 1 42 = Inr p4"
    "fst (price_american_put_lsm_ultimate 2 (\<lambda>i j. fl 0) \<lparr>memory_size = 4096, offset = 16\<rparr>
             (fl 100) (fl 105) (fl 1) (fl 0) (fl 0) 2 1 42) = Inr p5"
    using demo_cpp demo_arena demo_mp demo_simd demo_ultimate by blast
  show ?thesis
    using price_nonnegative [OF demo_valid demo_range, where rng = "\<lambda>seed k. fl 0" and draw = "\<lambda>i j. fl 0"
        and arena = "\<lparr>memory_size = 4096, offset = 16\<rparr>" and batch_size = 2 and seed = 42
        and ?p1.0 = p1 and ?p2.0 = p2 and ?p3.0 = p3 and ?p4.0 = p4 and ?p5.0 = p5] p
    by simp
qed

section \<open>The degenerate case\<close>

lemma dt_nonneg:
  assumes T: "is_finite T" and pos: "0 < T" and n: "1 \<le> n"
  shows "0 \<le> T / double_of_int n"
proof (cases T rule: dbl_cases)
  case (Fin t)
  then have t: "0 < t" using pos by (simp add: zero_dbl_def)
  have one: "round_real 1 = 1" using is_double_1 by (simp add: is_double_def)
  show ?thesis
  proof (cases "of_int n :: real" rule: fl_cases)
    case F: (Fin y)
    have y: "1 \<le> y" unfolding F(3) [symmetric] using n by (intro round_real_ge [OF one]) simp
    then have "0 \<le> t / y" using t by simp
    then have "fl 0 \<le> fl (t / y)" by (rule fl_nonneg)
    then show ?thesis using Fin F y by (simp add: double_of_int_def zero_dbl_def)
  next
    case PInf
    then show ?thesis using Fin by (simp add: double_of_int_def zero_dbl_def)
  next
    case MInf
    have "0 \<le> round_real (of_int n)" using n by (intro round_real_nonneg) simp
    then show ?thesis using MInf(2) pow2_pos [of 1024] by linarith
  qed
qed (use T in simp_all)

lemma is_finite_sqrt:
  assumes d: "is_finite dt" and n: "0 \<le> dt"
  shows "is_finite (sqrt_dbl dt)"
proof (cases dt rule: dbl_cases)
  case (Fin x)
  then have x: "0 \<le> x" using n by (simp add: zero_dbl_def)
  have b: "sqrt x \<le> max 1 x"
  proof (cases "x \<le> 1")
    case True
    then have "sqrt x \<le> 1" by simp
    then show ?thesis by simp
  next
    case False
    then have "1 \<le> sqrt x" by simp
    then have "sqrt x * 1 \<le> sqrt x * sqrt x" by (intro mult_left_mono) simp_all
    then have "sqrt x \<le> x" using x by simp
    then show ?thesis by simp
  qed
  have m: "is_double (max 1 x)" using Fin(2) by (simp add: max_def)
  have "fl 0 \<le> fl (sqrt x)" using x by (intro fl_nonneg) simp
  moreover have "fl (sqrt x) \<le> fl (max 1 x)" using m b by (rule fl_le_double)
  ultimately have "is_finite (fl (sqrt x))" using m by (cases "sqrt x" rule: fl_cases) simp_all
  then show ?thesis using Fin x by simp
qed (use d in simp_all)

text \<open>With \<open>r = 0\<close> and \<open>sigma = 0\<close> a step leaves the price as it is.\<close>

lemma gbm_update_degenerate:
  assumes dt: "is_finite dt" "0 \<le> dt" and z: "is_finite z"
  shows "gbm_update s 0 0 dt z = s"
proof -
  have q: "is_finite (sqrt_dbl dt)" using dt by (rule is_finite_sqrt)
  have a: "(0 - fl (1 / 2) * 0 * 0) * dt = 0"
    using dt(1) by (cases dt rule: dbl_cases) (simp_all add: zero_dbl_def)
  have b: "0 * sqrt_dbl dt * z = 0"
    using q z by (simp add: zero_times_finite_dbl)
  have "exp_dbl (0 + 0) = fl 1" by (simp add: zero_dbl_def)
  then show ?thesis unfolding gbm_update_def a b by (simp add: times_one_dbl)
qed

lemma lattice_degenerate:
  assumes f: "follows_gbm L S draw S0 0 0 dt N M"
    and dt: "is_finite dt" "0 \<le> dt" and z: "\<forall>i j. is_finite (draw i j)" and i: "i < N"
  shows "j \<le> M \<Longrightarrow> rd L S i j = S0"
proof (induction j)
  case 0
  show ?case using f i by (simp add: follows_gbm_def)
next
  case (Suc j)
  have "rd L S i (Suc j) = gbm_update (rd L S i j) 0 0 dt (draw i (Suc j))"
    using f i Suc.prems by (simp add: follows_gbm_def)
  also have "\<dots> = rd L S i j" using dt z by (intro gbm_update_degenerate) simp_all
  finally show ?case using Suc by simp
qed

lemma discount_degenerate:
  assumes dt: "is_finite dt" and j: "int j \<le> 2 ^ 53"
  shows "exp_dbl (- 0 * double_of_int (int j) * dt) = fl 1"
proof -
  have d: "is_double (of_int (int j))" using j by (intro is_double_of_int) simp
  have "- 0 * double_of_int (int j) * dt = 0"
    using dt d by (cases dt rule: dbl_cases) (simp_all add: zero_dbl_def double_of_int_def)
  then show ?thesis by (simp add: zero_dbl_def)
qed

text \<open>
  The scan of a path whose cash flows are 0 or \<open>v\<close>: the first positive cash flow is \<open>v\<close>,
  and it is not discounted.
\<close>

lemma first_payoff_from_degenerate:
  assumes dt: "is_finite dt" and M: "int M \<le> 2 ^ 53"
    and vals: "\<forall>j\<le>M. rd L cf i j = 0 \<or> rd L cf i j = v"
  shows "first_payoff_from L 0 dt cf M i j0
           = (if \<exists>j. j0 \<le> j \<and> j \<le> M \<and> 0 < rd L cf i j then Some v else None)"
proof (induction "Suc M - j0" arbitrary: j0)
  case 0
  then have "M < j0" by simp
  then show ?case by (subst first_payoff_from.simps) auto
next
  case (Suc d)
  then have le: "j0 \<le> M" by simp
  show ?case
  proof (cases "0 < rd L cf i j0")
    case True
    have "rd L cf i j0 \<noteq> 0" using True by (auto simp: zero_dbl_def)
    then have e: "rd L cf i j0 = v" using vals le by auto
    have "int j0 \<le> 2 ^ 53" using le M by simp
    then have "exp_dbl (- 0 * double_of_int (int j0) * dt) = fl 1" by (rule discount_degenerate [OF dt])
    then have "first_payoff_from L 0 dt cf M i j0 = Some v"
      using True le e by (subst first_payoff_from.simps) (simp add: times_one_dbl)
    moreover have "\<exists>j. j0 \<le> j \<and> j \<le> M \<and> 0 < rd L cf i j" using True le by auto
    ultimately show ?thesis by simp
  next
    case False
    have "first_payoff_from L 0 dt cf M i j0 = first_payoff_from L 0 dt cf M i (Suc j0)"
      using False le by (subst first_payoff_from.simps) simp
    moreover have "d = Suc M - Suc j0" using Suc.hyps(2) by simp
    then have "first_payoff_from L 0 dt cf M i (Suc j0)
        = (if \<exists>j. Suc j0 \<le> j \<and> j \<le> M \<and> 0 < rd L cf i j then Some v else None)"
      by (rule Suc.hyps(1))
    moreover have "(\<exists>j. Suc j0 \<le> j \<and> j \<le> M \<and> 0 < rd L cf i j) \<longleftrightarrow> (\<exists>j. j0 \<le> j \<and> j \<le> M \<and> 0 < rd L cf i j)"
      using False by (metis Suc_leD Suc_leI le_neq_implies_less)
    ultimately show ?thesis by simp
  qed
qed

lemma not_pos_zero_dbl: "\<not> (0::dbl) < 0"
  by (simp add: zero_dbl_def)

lemma first_payoff_degenerate:
  assumes law: "lawful L ok N M" and M: "1 \<le> M" "int M \<le> 2 ^ 53" and dt: "is_finite dt"
    and S: "\<forall>i<N. \<forall>j\<le>M. rd L S i j = S0" and i: "i < N"
  shows "first_payoff_from L 0 dt (cash_flow_table L K 0 dt S N M) M i 1
           = (if 0 < std_max 0 (K - S0) then Some (std_max 0 (K - S0)) else None)"
proof -
  let ?v = "std_max 0 (K - S0)"
  let ?cf = "cash_flow_table L K 0 dt S N M"
  have Pv: "std_max 0 (K - rd L S i t) = 0 \<or> std_max 0 (K - rd L S i t) = ?v"
    if "i < N" "t \<le> M" for i t using S that by simp
  have "entries_satisfy L N M (\<lambda>x. x = 0 \<or> x = ?v) ?cf"
    by (rule cash_flow_table_keeps(1) [OF law M(1)]) (use Pv in auto)
  then have vals: "\<forall>j\<le>M. rd L ?cf i j = 0 \<or> rd L ?cf i j = ?v"
    using i by (simp add: entries_satisfy_def)
  have keeps2: "pays L M ?cf i" if "0 < std_max 0 (K - rd L S i M)"
    by (rule cash_flow_table_keeps(2) [OF law M(1) _ _ i that, where P = "\<lambda>x. True"]) simp_all
  have ex: "(\<exists>j. 1 \<le> j \<and> j \<le> M \<and> 0 < rd L ?cf i j) \<longleftrightarrow> 0 < ?v"
  proof
    assume "\<exists>j. 1 \<le> j \<and> j \<le> M \<and> 0 < rd L ?cf i j"
    then obtain j where j: "j \<le> M" "0 < rd L ?cf i j" by blast
    then show "0 < ?v" using vals not_pos_zero_dbl by (metis)
  next
    assume "0 < ?v"
    then have "0 < std_max 0 (K - rd L S i M)" using S i by simp
    then have "pays L M ?cf i" by (rule keeps2)
    then show "\<exists>j. 1 \<le> j \<and> j \<le> M \<and> 0 < rd L ?cf i j" by (simp add: pays_def)
  qed
  show ?thesis
    unfolding first_payoff_from_degenerate [OF dt M(2) vals] ex ..
qed

lemma total_payoff_degenerate:
  assumes law: "lawful L ok N M" and M: "1 \<le> M" "int M \<le> 2 ^ 53" and dt: "is_finite dt"
    and S: "\<forall>i<N. \<forall>j\<le>M. rd L S i j = S0"
  shows "total_payoff L 0 dt (cash_flow_table L K 0 dt S N M) N M
           = fold (\<lambda>i s. s + std_max 0 (K - S0)) [0..<N] 0"
  unfolding total_payoff_def
proof (rule fold_cong [OF refl refl])
  fix i assume "i \<in> set [0..<N]"
  then have i: "i < N" by simp
  note fp = first_payoff_degenerate [OF law M dt S i, of K]
  show "(\<lambda>total. case first_payoff_from L 0 dt (cash_flow_table L K 0 dt S N M) M i 1 of
                    None \<Rightarrow> total | Some p \<Rightarrow> total + p)
        = (\<lambda>s. s + std_max 0 (K - S0))"
  proof (cases "0 < std_max 0 (K - S0)")
    case True
    then show ?thesis using fp by simp
  next
    case False
    then have "std_max 0 (K - S0) = 0" by (rule std_max_zero)
    then show ?thesis using False fp by (simp add: add_zero_dbl)
  qed
qed

lemma lsm_price_degenerate:
  assumes law: "lawful L ok (nat num_paths) (nat num_steps)"
    and m: "1 \<le> num_steps" "num_steps \<le> 2 ^ 53" and dt: "is_finite dt"
    and S: "\<forall>i<nat num_paths. \<forall>j\<le>nat num_steps. rd L S i j = S0"
  shows "lsm_price L K 0 dt S num_paths num_steps = average_of_copies (std_max 0 (K - S0)) num_paths"
proof -
  have M: "1 \<le> nat num_steps" "int (nat num_steps) \<le> 2 ^ 53" using m by simp_all
  show ?thesis
    unfolding lsm_price_def average_of_copies_def total_payoff_degenerate [OF law M dt S] ..
qed

section \<open>The degenerate case of the scalar variant\<close>

lemma scalar_lattice_degenerate:
  assumes T: "is_finite T" "0 < T" and m: "1 \<le> num_steps" and z: "\<forall>k. is_finite (Z k)"
    and i: "i < N" and j: "j \<le> nat num_steps"
  shows "rd path_major (simulate_paths path_major Z S0 0 0 (T / double_of_int num_steps) N (nat num_steps)) i j
           = S0"
proof -
  have dt: "is_finite (T / double_of_int num_steps)" "0 \<le> T / double_of_int num_steps"
    using T m by (simp_all add: is_finite_dt dt_nonneg)
  show ?thesis
    by (rule lattice_degenerate [OF simulate_paths_follows [OF lawful_path_major] dt _ i j])
      (simp add: z)
qed

lemma scalar_price_degenerate:
  assumes v: "valid_configuration S0 K T 0 0 num_paths num_steps" and m: "num_steps + 1 < 2 ^ 31"
    and z: "\<forall>k. is_finite (rng seed k)"
  shows "price_american_put_lsm_cpp rng S0 K T 0 0 num_paths num_steps seed
           = Inr (average_of_copies (std_max 0 (K - S0)) num_paths)"
proof -
  have T: "is_finite T" "0 < T" and n: "1 \<le> num_steps" "0 \<le> num_paths" "0 \<le> num_steps"
    using v by (simp_all add: valid_configuration_def)
  have big: "num_steps \<le> 2 ^ 53" using m by simp
  have dt: "is_finite (T / double_of_int num_steps)" using T(1) n(1) by (rule is_finite_dt)
  have S: "\<forall>i<nat num_paths. \<forall>j\<le>nat num_steps.
      rd path_major (simulate_paths path_major (rng seed) S0 0 0 (T / double_of_int num_steps)
        (nat num_paths) (nat num_steps)) i j = S0"
    using scalar_lattice_degenerate [OF T n(1) z] by blast
  show ?thesis
    unfolding price_cpp_Inr [OF n(2) n(3) m]
    using lsm_price_degenerate [OF lawful_path_major n(1) big dt S] by simp
qed

text \<open>
  The rounding of the average of seven copies of \<open>1.3 - 1\<close>. The double nearest to \<open>1.3\<close> is
  \<open>5854679515581645 / 2^52\<close>; the difference and the first six sums are doubles, the seventh
  sum and the quotient by 7 are rounded.
\<close>

lemma fl_binade:
  assumes lo: "pow2 k \<le> \<bar>x\<bar>" and hi: "\<bar>x\<bar> < pow2 (k + 1)" and k: "- 1022 \<le> k" "k \<le> 1022"
    and m: "round_half_even (x / pow2 (k - 52)) = m"
  shows "fl x = fl (of_int m * pow2 (k - 52))" and "is_double (of_int m * pow2 (k - 52))"
proof -
  have "\<lfloor>log 2 \<bar>x\<bar>\<rfloor> = k" using lo hi by (rule floor_log2_eq)
  then have q: "quantum_exp x = k - 52" using k by (simp add: quantum_exp_def)
  have r: "round_real x = of_int m * pow2 (k - 52)" by (simp add: round_real_def q m)
  have "\<bar>m\<bar> \<le> 2 ^ 53" using mantissa_bound [of x] by (simp add: q m)
  then show d: "is_double (of_int m * pow2 (k - 52))" using k by (intro is_double_grid) simp_all
  then have "\<bar>round_real x\<bar> < pow2 1024" unfolding r is_double_def by simp
  then have "fl x = Fin (Abs_double (round_real x))" using pow2_pos [of 1024] by (auto simp: fl_def Let_def)
  then show "fl x = fl (of_int m * pow2 (k - 52))" using d by (simp add: r fl_double)
qed

lemma is_double_dyadic: "\<bar>m\<bar> \<le> 2 ^ 53 \<Longrightarrow> n \<le> 1074 \<Longrightarrow> is_double (of_int m / 2 ^ n)"
proof -
  assume m: "\<bar>m\<bar> \<le> 2 ^ 53" and n: "n \<le> 1074"
  have "pow2 (- int n) = 1 / 2 ^ n" by (simp add: pow2_def)
  then have "of_int m / 2 ^ n = of_int m * pow2 (- int n)" by simp
  moreover have "is_double (of_int m * pow2 (- int n))" using m n by (intro is_double_grid) simp_all
  ultimately show ?thesis by simp
qed

lemma strike_rounded: "fl (13 / 10) = fl (5854679515581645 / 4503599627370496)"
  using fl_binade(1) [of 0 "13 / 10" 5854679515581645]
  by (simp add: pow2_def round_half_even_def Let_def)

lemma strike_double: "is_double (5854679515581645 / 4503599627370496)"
  using is_double_dyadic [of 5854679515581645 52] by simp

lemma copies_1: "is_double (1351079888211149 / 4503599627370496)"
  using is_double_dyadic [of 1351079888211149 52] by simp

lemma payoff_exact: "fl (13 / 10) - fl 1 = fl (1351079888211149 / 4503599627370496)"
  unfolding strike_rounded using strike_double by simp


lemma fold_copies: "fold (\<lambda>i s. s + v) [0..<Suc n] a = fold (\<lambda>i s. s + v) [0..<n] a + (v::dbl)"
  by simp

lemma copies_2: "is_double (1351079888211149 / 2251799813685248)"
  using is_double_dyadic [of 1351079888211149 51] by simp

lemma copies_3: "is_double (4053239664633447 / 4503599627370496)"
  using is_double_dyadic [of 4053239664633447 52] by simp

lemma copies_4: "is_double (1351079888211149 / 1125899906842624)"
  using is_double_dyadic [of 1351079888211149 50] by simp

lemma copies_5: "is_double (6755399441055745 / 4503599627370496)"
  using is_double_dyadic [of 6755399441055745 52] by simp

lemma copies_6: "is_double (4053239664633447 / 2251799813685248)"
  using is_double_dyadic [of 4053239664633447 51] by simp

lemma copies_7: "is_double (2364389804369511 / 1125899906842624)"
  using is_double_dyadic [of 2364389804369511 50] by simp

lemma quotient_double: "is_double (5404319552844597 / 18014398509481984)"
  using is_double_dyadic [of 5404319552844597 54] by simp

lemma sum_rounded: "fl (9457559217478043 / 4503599627370496) = fl (2364389804369511 / 1125899906842624)"
  using fl_binade(1) [of 1 "9457559217478043 / 4503599627370496" 4728779608739022]
  by (simp add: pow2_def round_half_even_def Let_def)

lemma quotient_rounded: "fl (2364389804369511 / 7881299347898368) = fl (5404319552844597 / 18014398509481984)"
  using fl_binade(1) [of "- 2" "2364389804369511 / 7881299347898368" 5404319552844597]
  by (simp add: pow2_def round_half_even_def Let_def)

lemma sum_of_seven:
  "fold (\<lambda>i s. s + fl (1351079888211149 / 4503599627370496)) [0..<nat 7] 0
     = fl (2364389804369511 / 1125899906842624)"
proof -
  let ?p = "fl (1351079888211149 / 4503599627370496)"
  have n: "nat 7 = Suc (Suc (Suc (Suc (Suc (Suc (Suc 0))))))" by simp
  have s1: "(0::dbl) + ?p = ?p" using copies_1 by (simp add: zero_dbl_def)
  have s2: "?p + ?p = fl (1351079888211149 / 2251799813685248)" using copies_1 by simp
  have s3: "fl (1351079888211149 / 2251799813685248) + ?p = fl (4053239664633447 / 4503599627370496)"
    using copies_1 copies_2 by simp
  have s4: "fl (4053239664633447 / 4503599627370496) + ?p = fl (1351079888211149 / 1125899906842624)"
    using copies_1 copies_3 by simp
  have s5: "fl (1351079888211149 / 1125899906842624) + ?p = fl (6755399441055745 / 4503599627370496)"
    using copies_1 copies_4 by simp
  have s6: "fl (6755399441055745 / 4503599627370496) + ?p = fl (4053239664633447 / 2251799813685248)"
    using copies_1 copies_5 by simp
  have s7: "fl (4053239664633447 / 2251799813685248) + ?p = fl (2364389804369511 / 1125899906842624)"
    using copies_1 copies_6 sum_rounded by simp
  show ?thesis unfolding n fold_copies by (simp only: upt_0 fold_Nil id_apply s1 s2 s3 s4 s5 s6 s7)
qed

lemma average_of_seven:
  "average_of_copies (fl (1351079888211149 / 4503599627370496)) 7 = fl (5404319552844597 / 18014398509481984)"
  unfolding average_of_copies_def sum_of_seven double_of_int_def using copies_7 quotient_rounded by simp

lemma average_differs: "fl (5404319552844597 / 18014398509481984) \<noteq> fl (1351079888211149 / 4503599627370496)"
  using quotient_double copies_1 by simp

lemma payoff_positive: "std_max 0 (fl (13 / 10) - fl 1) = fl (1351079888211149 / 4503599627370496)"
  unfolding payoff_exact using copies_1 by (simp add: std_max_def zero_dbl_def)

text \<open>
  Claim C5, as stated, at \<open>S0 = 1\<close>, \<open>K = 1.3\<close>, \<open>T = 1\<close>, \<open>r = 0\<close>, \<open>sigma = 0\<close>, seven paths
  and one step, a valid configuration: every path pays \<open>max(0, K - S0) = 5404319552844596 / 2^54\<close>,
  and the scalar variant returns the rounded sum of the seven payoffs divided by 7, which is
  \<open>5404319552844597 / 2^54\<close>, one unit in the last place above \<open>max(0, K - S0)\<close>.
\<close>

theorem rounded_average_counterexample:
  "valid_configuration (fl 1) (fl (13 / 10)) (fl 1) 0 0 7 1
 \<and> price_american_put_lsm_cpp (\<lambda>seed k. fl 0) (fl 1) (fl (13 / 10)) (fl 1) 0 0 7 1 42
     = Inr (fl (5404319552844597 / 18014398509481984))
 \<and> std_max 0 (fl (13 / 10) - fl 1) = fl (5404319552844596 / 18014398509481984)
 \<and> fl (5404319552844597 / 18014398509481984) \<noteq> fl (5404319552844596 / 18014398509481984)"
proof -
  have k: "is_finite (fl (13 / 10))" unfolding strike_rounded using strike_double by simp
  have valid: "valid_configuration (fl 1) (fl (13 / 10)) (fl 1) 0 0 7 1"
    using k by (simp add: valid_configuration_def zero_dbl_def)
  have code: "price_american_put_lsm_cpp (\<lambda>seed k. fl 0) (fl 1) (fl (13 / 10)) (fl 1) 0 0 7 1 42
      = Inr (fl (5404319552844597 / 18014398509481984))"
    using scalar_price_degenerate [of "fl 1" "fl (13 / 10)" "fl 1" 7 1 "\<lambda>seed k. fl 0" 42] valid
    by (simp add: payoff_positive average_of_seven)
  have spec: "std_max 0 (fl (13 / 10) - fl 1) = fl (5404319552844596 / 18014398509481984)"
    unfolding payoff_positive by simp
  have "fl (5404319552844597 / 18014398509481984) \<noteq> fl (5404319552844596 / 18014398509481984)"
    using average_differs by simp
  then show ?thesis using valid code spec by simp
qed

text \<open>
  Claim C5, amended. For a valid configuration with \<open>sigma = 0\<close> and \<open>r = 0\<close>, with
  \<open>num_steps + 1\<close> in the range of \<open>int\<close>, and for a seed whose draws are finite, every
  simulated price is \<open>S0\<close>, and the first positive cash flow of every path, which the
  aggregation takes undiscounted, is \<open>max(0, K - S0)\<close> when that is positive, whatever the
  regression and the exercise decisions of the interior dates are: an exercise at an interior
  date replaces the later payoff by the same amount. The scalar variant returns the running
  floating-point sum of \<open>num_paths\<close> copies of \<open>max(0, K - S0)\<close> divided by \<open>num_paths\<close>.
\<close>

theorem degenerate_price:
  assumes "valid_configuration S0 K T 0 0 num_paths num_steps"
    and "num_steps + 1 < 2 ^ 31"
    and "\<forall>k. is_finite (rng seed k)"
  shows "price_american_put_lsm_cpp rng S0 K T 0 0 num_paths num_steps seed
           = Inr (average_of_copies (std_max 0 (K - S0)) num_paths)
   \<and> (\<forall>i<nat num_paths. \<forall>j\<le>nat num_steps.
        rd path_major (simulate_paths path_major (rng seed) S0 0 0 (T / double_of_int num_steps)
          (nat num_paths) (nat num_steps)) i j = S0)
   \<and> (\<forall>i<nat num_paths.
        first_payoff_from path_major 0 (T / double_of_int num_steps)
          (cash_flow_table path_major K 0 (T / double_of_int num_steps)
             (simulate_paths path_major (rng seed) S0 0 0 (T / double_of_int num_steps)
                (nat num_paths) (nat num_steps))
             (nat num_paths) (nat num_steps))
          (nat num_steps) i 1
        = (if 0 < std_max 0 (K - S0) then Some (std_max 0 (K - S0)) else None))"
proof -
  have T: "is_finite T" "0 < T" and n: "1 \<le> num_steps"
    using assms(1) by (simp_all add: valid_configuration_def)
  have M: "1 \<le> nat num_steps" "int (nat num_steps) \<le> 2 ^ 53" using n assms(2) by simp_all
  have dt: "is_finite (T / double_of_int num_steps)" using T(1) n by (rule is_finite_dt)
  have S: "\<forall>i<nat num_paths. \<forall>j\<le>nat num_steps.
      rd path_major (simulate_paths path_major (rng seed) S0 0 0 (T / double_of_int num_steps)
        (nat num_paths) (nat num_steps)) i j = S0"
    using scalar_lattice_degenerate [OF T n assms(3)] by blast
  show ?thesis
    using scalar_price_degenerate [of S0 K T num_paths num_steps rng seed] assms S
      first_payoff_degenerate [OF lawful_path_major M dt S]
    by simp
qed

lemma demo_degenerate: "valid_configuration (fl 100) (fl 105) (fl 1) 0 0 2 2"
  by (simp add: valid_configuration_def zero_dbl_def)

theorem degenerate_price_witness:
  "price_american_put_lsm_cpp (\<lambda>seed k. fl 0) (fl 100) (fl 105) (fl 1) 0 0 2 2 42 = Inr (fl 5)"
  using degenerate_price [of "fl 100" "fl 105" "fl 1" 2 2 "\<lambda>seed k. fl 0" 42] demo_degenerate
  by (simp add: average_of_copies_def std_max_def zero_dbl_def double_of_int_def numeral_2_eq_2)
end
